theory Spec2Isabelle
  imports Main "HOL-Library.Word" "HOL-Library.AList"
begin

section \<open>HEIC to WebP converter: a shallow embedding of \<open>src/main.cpp\<close>\<close>

text \<open>
  The program is a command-line batch converter. Its own code is argument parsing,
  file discovery, output-path naming, the per-file conversion sequence and the batch
  loop with its counters and exit code. Everything else is the C++ standard library
  (\<open>std::string\<close>, \<open>std::stoi\<close>, \<open>std::filesystem\<close>, \<open>std::ofstream\<close>) and the two
  codec libraries (libheif, libwebp). The standard library is modelled here from its
  documented behaviour on a POSIX system; the codec libraries are parameters.
\<close>

subsection \<open>Characters and strings\<close>

text \<open>\<open>std::tolower\<close> in the "C" locale (the program never calls \<open>setlocale\<close>).\<close>

definition tolower :: "char \<Rightarrow> char" where
  "tolower c =
     (case map_of (zip ''ABCDEFGHIJKLMNOPQRSTUVWXYZ'' ''abcdefghijklmnopqrstuvwxyz'') c of
        Some l \<Rightarrow> l
      | None \<Rightarrow> c)"

text \<open>\<open>isspace\<close> and \<open>isdigit\<close> of the "C" locale, as \<open>strtol\<close> uses them.\<close>

definition isspace :: "char \<Rightarrow> bool" where
  "isspace c \<longleftrightarrow> (of_char c :: nat) \<in> {32, 9, 10, 11, 12, 13}"

definition isdigit :: "char \<Rightarrow> bool" where
  "isdigit c \<longleftrightarrow> c \<in> set ''0123456789''"

definition digit_value :: "char \<Rightarrow> int" where
  "digit_value c = int (of_char c) - 48"

subsection \<open>\<open>std::stoi\<close>\<close>

datatype stoi_error = Invalid_argument | Out_of_range

text \<open>
  \<open>std::stoi(str)\<close> with base 10: \<open>strtol\<close> skips leading white space, reads an optional
  sign and the longest run of decimal digits, and ignores what follows. With no digit
  it throws \<open>std::invalid_argument\<close>; when the value does not fit an \<open>int\<close> (32 bits) it
  throws \<open>std::out_of_range\<close>.
\<close>

definition stoi :: "string \<Rightarrow> stoi_error + int" where
  "stoi s =
     (let s1 = dropWhile isspace s;
          neg = (s1 \<noteq> [] \<and> hd s1 = CHR ''-'');
          s2 = (if s1 \<noteq> [] \<and> (hd s1 = CHR ''-'' \<or> hd s1 = CHR ''+'') then tl s1 else s1);
          ds = takeWhile isdigit s2
      in if ds = [] then Inl Invalid_argument
         else let v = foldl (\<lambda>acc c. acc * 10 + digit_value c) 0 ds;
                  v' = (if neg then - v else v)
              in if v' < - 2147483648 \<or> 2147483647 < v' then Inl Out_of_range
                 else Inr v')"

subsection \<open>\<open>std::filesystem::path\<close>\<close>

text \<open>
  A path is kept as the sequence of elements its iteration yields: whether it has a
  root directory, and the file names after it. Redundant separators are dropped and a
  trailing separator gives a last element that is empty, as in C++17. Two paths are
  equal here exactly when \<open>operator==\<close> of \<open>fs::path\<close> says so (it compares element by
  element). There are no root names on POSIX.
\<close>

record path =
  has_root :: bool
  elems :: "string list"

text \<open>Splitting the text after the root at separators; a run of separators is one.\<close>

fun split_elems :: "string \<Rightarrow> string \<Rightarrow> string list" where
  "split_elems cur [] = [cur]"
| "split_elems cur (c # cs) =
     (if c = CHR ''/'' then
        (if cs \<noteq> [] \<and> hd cs = CHR ''/'' then split_elems cur cs else cur # split_elems [] cs)
      else split_elems (cur @ [c]) cs)"

text \<open>\<open>fs::path(s)\<close> for a \<open>std::string s\<close>.\<close>

definition path_of_string :: "string \<Rightarrow> path" where
  "path_of_string s =
     (let rest = dropWhile (\<lambda>d. d = CHR ''/'') s
      in \<lparr>has_root = (s \<noteq> [] \<and> hd s = CHR ''/''),
          elems = (if rest = [] then [] else split_elems [] rest)\<rparr>)"

text \<open>\<open>path::filename()\<close>: the last element, empty when there is none.\<close>

definition filename :: "path \<Rightarrow> string" where
  "filename p = (if elems p = [] then [] else last (elems p))"

text \<open>
  \<open>path::parent_path()\<close>: the path itself when it has no relative part, otherwise the
  path with one element fewer.
\<close>

definition parent_path :: "path \<Rightarrow> path" where
  "parent_path p = (if elems p = [] then p else p\<lparr>elems := butlast (elems p)\<rparr>)"

text \<open>
  The position of the extension in a file name (\<open>path::_M_find_extension\<close>): none for
  \<open>.\<close> and \<open>..\<close>, none when the only period is the first character, otherwise the
  rightmost period.
\<close>

fun rfind_dot :: "string \<Rightarrow> nat option" where
  "rfind_dot [] = None"
| "rfind_dot (c # cs) =
     (case rfind_dot cs of
        Some k \<Rightarrow> Some (Suc k)
      | None \<Rightarrow> if c = CHR ''.'' then Some 0 else None)"

definition ext_pos :: "string \<Rightarrow> nat option" where
  "ext_pos f =
     (if f = ''.'' \<or> f = ''..'' then None
      else case rfind_dot f of
             None \<Rightarrow> None
           | Some pos \<Rightarrow> if pos = 0 then None else Some pos)"

text \<open>\<open>path::extension()\<close> and \<open>path::stem()\<close>, on the file name.\<close>

definition extension :: "path \<Rightarrow> string" where
  "extension p = (case ext_pos (filename p) of None \<Rightarrow> [] | Some pos \<Rightarrow> drop pos (filename p))"

definition stem :: "path \<Rightarrow> string" where
  "stem p = (case ext_pos (filename p) of None \<Rightarrow> filename p | Some pos \<Rightarrow> take pos (filename p))"

text \<open>
  \<open>operator/\<close>: an absolute right operand replaces the left one; otherwise a separator
  is added when the left operand has a file name, and the right operand is appended.
\<close>

definition path_append :: "path \<Rightarrow> path \<Rightarrow> path" where
  "path_append p q =
     (if has_root q then q
      else if elems p \<noteq> [] \<and> last (elems p) = [] then p\<lparr>elems := butlast (elems p) @ (if elems q = [] then [[]] else elems q)\<rparr>
      else if elems q = [] then (if elems p = [] then p else p\<lparr>elems := elems p @ [[]]\<rparr>)
      else p\<lparr>elems := elems p @ elems q\<rparr>)"

subsection \<open>Options and argument parsing\<close>

record options =
  input :: string
  output_dir :: string
  quality :: int
  recursive :: bool
  verbose :: bool

definition default_options :: options where
  "default_options = \<lparr>input = [], output_dir = [], quality = 85, recursive = False, verbose = False\<rparr>"

text \<open>
  What the process prints, line by line, without the wording. The messages that the
  codec libraries supply (\<open>err.message\<close>) are left out.
\<close>

datatype event =
    Usage
  | Missing_argument string
  | Quality_range
  | Unknown_option string
  | Input_not_found path
  | No_heic_found
  | Found_files nat
  | Decoding path
  | Failed_read
  | Failed_handle
  | Failed_decode
  | Dimensions int int
  | Encoding path
  | Failed_encode
  | Failed_create path
  | Size_report nat nat
  | Done
  | Converted string string
  | Failed string
  | Summary int nat

text \<open>
  How the process ends: \<open>exit(n)\<close> or \<open>return n\<close> from \<open>main\<close>, or an exception that
  nothing catches (\<open>std::terminate\<close>, no exit code of the program's own).
\<close>

datatype status = Exit int | Terminate

text \<open>
  The loop of \<open>parse_args\<close> over \<open>argv[1..]\<close>. The result is what was printed and either
  the way the process ended inside the parser or the options.
\<close>

fun parse_loop :: "options \<Rightarrow> string list \<Rightarrow> event list \<times> (status + options)" where
  "parse_loop opts [] = ([], Inr opts)"
| "parse_loop opts (arg # rest) =
     (if arg = ''-h'' \<or> arg = ''--help'' then ([Usage], Inl (Exit 0))
      else if arg = ''-o'' \<or> arg = ''--output'' then
        (case rest of
           v # rest' \<Rightarrow> parse_loop (opts\<lparr>output_dir := v\<rparr>) rest'
         | [] \<Rightarrow> ([Missing_argument arg], Inl (Exit 1)))
      else if arg = ''-q'' \<or> arg = ''--quality'' then
        (case rest of
           v # rest' \<Rightarrow>
             (case stoi v of
                Inl e \<Rightarrow> ([], Inl Terminate)
              | Inr n \<Rightarrow>
                  if n < 1 \<or> n > 100 then ([Quality_range], Inl (Exit 1))
                  else parse_loop (opts\<lparr>quality := n\<rparr>) rest')
         | [] \<Rightarrow> ([Missing_argument arg], Inl (Exit 1)))
      else if arg = ''-r'' \<or> arg = ''--recursive'' then parse_loop (opts\<lparr>recursive := True\<rparr>) rest
      else if arg = ''-v'' \<or> arg = ''--verbose'' then parse_loop (opts\<lparr>verbose := True\<rparr>) rest
      else if arg \<noteq> [] \<and> hd arg = CHR ''-'' then ([Unknown_option arg], Inl (Exit 1))
      else parse_loop (opts\<lparr>input := arg\<rparr>) rest)"

definition parse_args :: "string list \<Rightarrow> event list \<times> (status + options)" where
  "parse_args argv = parse_loop default_options (tl argv)"

subsection \<open>The file system\<close>

text \<open>
  The file system is a tree of regular files and directories; a directory lists its
  entries by name, in the order an iteration yields them. Symbolic links, special
  files and permissions are outside this model, and so are the \<open>filesystem_error\<close>
  exceptions they cause. The process has a current directory, and the device may
  stop accepting bytes: \<open>write_limit w p = Some k\<close> says that a stream opened on \<open>p\<close>
  stores only the first \<open>k\<close> bytes written to it (a full disk, an I/O error).
\<close>

type_synonym bytes = "8 word list"

datatype node = File bytes | Dir "(string \<times> node) list"

record world =
  root :: node
  cwd :: "string list"
  write_limit :: "path \<Rightarrow> nat option"

text \<open>Looking up a sequence of plain names below a node.\<close>

fun lookup_c :: "node \<Rightarrow> string list \<Rightarrow> node option" where
  "lookup_c n [] = Some n"
| "lookup_c (File b) (e # es) = None"
| "lookup_c (Dir ents) (e # es) =
     (case map_of ents e of None \<Rightarrow> None | Some c \<Rightarrow> lookup_c c es)"

definition is_dir_at :: "node \<Rightarrow> string list \<Rightarrow> bool" where
  "is_dir_at r ns = (case lookup_c r ns of Some (Dir ents) \<Rightarrow> True | _ \<Rightarrow> False)"

text \<open>
  Path resolution as the kernel does it: element by element from the root, where every
  element is looked up in a directory; an empty element and \<open>.\<close> stay, \<open>..\<close> goes up
  (the root is its own parent). \<open>acc\<close> is the location reached, innermost name first.
  The last name need not exist.
\<close>

fun canon :: "node \<Rightarrow> string list \<Rightarrow> string list \<Rightarrow> string list option" where
  "canon r acc [] = Some acc"
| "canon r acc (e # es) =
     (if \<not> is_dir_at r (rev acc) then None
      else if e = [] \<or> e = ''.'' then canon r acc es
      else if e = ''..'' then canon r (tl acc) es
      else canon r (e # acc) es)"

definition abs_elems :: "world \<Rightarrow> path \<Rightarrow> string list" where
  "abs_elems w p = (if has_root p then elems p else cwd w @ elems p)"

definition locate :: "world \<Rightarrow> path \<Rightarrow> string list option" where
  "locate w p =
     (if \<not> has_root p \<and> elems p = [] then None
      else map_option rev (canon (root w) [] (abs_elems w p)))"

definition resolve :: "world \<Rightarrow> path \<Rightarrow> node option" where
  "resolve w p = (case locate w p of None \<Rightarrow> None | Some ns \<Rightarrow> lookup_c (root w) ns)"

text \<open>\<open>fs::exists\<close>, \<open>fs::is_directory\<close>, \<open>fs::is_regular_file\<close>, \<open>fs::file_size\<close>.\<close>

definition exists :: "world \<Rightarrow> path \<Rightarrow> bool" where
  "exists w p = (resolve w p \<noteq> None)"

definition is_directory :: "world \<Rightarrow> path \<Rightarrow> bool" where
  "is_directory w p = (case resolve w p of Some (Dir ents) \<Rightarrow> True | _ \<Rightarrow> False)"

definition is_regular_file :: "world \<Rightarrow> path \<Rightarrow> bool" where
  "is_regular_file w p = (case resolve w p of Some (File b) \<Rightarrow> True | _ \<Rightarrow> False)"

definition read_file :: "world \<Rightarrow> path \<Rightarrow> bytes option" where
  "read_file w p = (case resolve w p of Some (File b) \<Rightarrow> Some b | _ \<Rightarrow> None)"

text \<open>\<open>fs::file_size\<close> throws for what is not a regular file: \<open>None\<close>.\<close>

definition file_size :: "world \<Rightarrow> path \<Rightarrow> nat option" where
  "file_size w p = map_option length (read_file w p)"

text \<open>\<open>fs::absolute\<close>, for a path that is not empty.\<close>

definition absolute :: "world \<Rightarrow> path \<Rightarrow> path" where
  "absolute w p = (if has_root p then p else path_append \<lparr>has_root = True, elems = cwd w\<rparr> p)"

text \<open>Replacing or adding the entry at a location whose parent is a directory.\<close>

fun set_c :: "node \<Rightarrow> string list \<Rightarrow> node \<Rightarrow> node option" where
  "set_c (Dir ents) [e] x = Some (Dir (AList.update e x ents))"
| "set_c (Dir ents) (e # e' # es) x =
     (case map_of ents e of
        None \<Rightarrow> None
      | Some c \<Rightarrow> (case set_c c (e' # es) x of
                     None \<Rightarrow> None
                   | Some c' \<Rightarrow> Some (Dir (AList.update e c' ents))))"
| "set_c n ns x = None"

text \<open>
  \<open>std::ofstream out(p, std::ios::binary)\<close>: the mode is \<open>out\<close>, which creates the file
  or truncates the one that is there. It fails (\<open>!out\<close>) when the parent is not a
  directory or the path names a directory.
\<close>

definition ofstream_open :: "world \<Rightarrow> path \<Rightarrow> world option" where
  "ofstream_open w p =
     (case locate w p of
        None \<Rightarrow> None
      | Some ns \<Rightarrow>
          if is_dir_at (root w) ns then None
          else map_option (\<lambda>r. w\<lparr>root := r\<rparr>) (set_c (root w) ns (File [])))"

text \<open>
  \<open>out.write(data, size); out.close()\<close> on a stream that was opened: the file holds what
  the device accepted. A short write sets the stream's \<open>badbit\<close>, which nothing reads.
\<close>

definition ofstream_write :: "world \<Rightarrow> path \<Rightarrow> bytes \<Rightarrow> world" where
  "ofstream_write w p data =
     (let stored = (case write_limit w p of None \<Rightarrow> data | Some k \<Rightarrow> take k data)
      in case locate w p of
           None \<Rightarrow> w
         | Some ns \<Rightarrow> (case set_c (root w) ns (File stored) of None \<Rightarrow> w | Some r \<Rightarrow> w\<lparr>root := r\<rparr>))"

text \<open>
  \<open>fs::create_directories\<close>: every missing directory along the path is created; a
  regular file in the way is an error, which it throws. The result is the tree it
  leaves and whether it returned.
\<close>

fun mkdirs :: "node \<Rightarrow> string list \<Rightarrow> string list \<Rightarrow> node \<times> bool" where
  "mkdirs r acc [] = (r, True)"
| "mkdirs r acc (e # es) =
     (if e = [] \<or> e = ''.'' then mkdirs r acc es
      else if e = ''..'' then mkdirs r (tl acc) es
      else case lookup_c r (rev (e # acc)) of
             Some (Dir ents) \<Rightarrow> mkdirs r (e # acc) es
           | Some (File b) \<Rightarrow> (r, False)
           | None \<Rightarrow> (case set_c r (rev (e # acc)) (Dir []) of
                        None \<Rightarrow> (r, False)
                      | Some r' \<Rightarrow> mkdirs r' (e # acc) es))"

definition create_directories :: "world \<Rightarrow> path \<Rightarrow> world \<times> bool" where
  "create_directories w p =
     (if \<not> has_root p \<and> elems p = [] then (w, False)
      else case mkdirs (root w) (if has_root p then [] else rev (cwd w)) (elems p) of
             (r, ok) \<Rightarrow> (w\<lparr>root := r\<rparr>, ok))"

subsection \<open>Directory iteration\<close>

definition name_path :: "string \<Rightarrow> path" where
  "name_path n = \<lparr>has_root = False, elems = [n]\<rparr>"

text \<open>
  \<open>fs::directory_iterator(dir)\<close>: one entry for each name in the directory, with the
  path \<open>dir / name\<close>. It throws for what is not a directory (\<open>None\<close>).
\<close>

definition directory_iterator :: "world \<Rightarrow> path \<Rightarrow> path list option" where
  "directory_iterator w dir =
     (case resolve w dir of
        Some (Dir ents) \<Rightarrow> Some (map (\<lambda>n. path_append dir (name_path n)) (map fst ents))
      | _ \<Rightarrow> None)"

text \<open>
  \<open>fs::recursive_directory_iterator(dir)\<close>: every entry of the subtree, a directory
  before its own entries. \<open>rec_names\<close> gives each entry by the names that lead to it
  from the directory; its path is the directory's, extended name by name.
\<close>

fun rec_names :: "(string \<times> node) list \<Rightarrow> string list list" where
  "rec_names [] = []"
| "rec_names ((n, File b) # rest) = [n] # rec_names rest"
| "rec_names ((n, Dir sub) # rest) = [n] # map ((#) n) (rec_names sub) @ rec_names rest"

definition descend :: "path \<Rightarrow> string list \<Rightarrow> path" where
  "descend dir ns = foldl (\<lambda>p n. path_append p (name_path n)) dir ns"

definition recursive_directory_iterator :: "world \<Rightarrow> path \<Rightarrow> path list option" where
  "recursive_directory_iterator w dir =
     (case resolve w dir of
        Some (Dir ents) \<Rightarrow> Some (map (descend dir) (rec_names ents))
      | _ \<Rightarrow> None)"

subsection \<open>Discovery and naming\<close>

definition is_heic_file :: "world \<Rightarrow> path \<Rightarrow> bool" where
  "is_heic_file w p =
     (if \<not> is_regular_file w p then False
      else let ext = map tolower (extension p) in ext = ''.heic'' \<or> ext = ''.heif'')"

definition find_heic_files :: "world \<Rightarrow> path \<Rightarrow> bool \<Rightarrow> path list option" where
  "find_heic_files w dir rec =
     (if rec then map_option (filter (is_heic_file w)) (recursive_directory_iterator w dir)
      else map_option (filter (is_heic_file w)) (directory_iterator w dir))"

definition get_output_path :: "path \<Rightarrow> string \<Rightarrow> path" where
  "get_output_path inp outdir =
     (let dir = (if outdir = [] then parent_path inp else path_of_string outdir)
      in path_append dir (path_of_string (stem inp @ ''.webp'')))"

subsection \<open>The codec libraries\<close>

text \<open>
  libheif and libwebp are parameters. \<open>heif_context_read_from_file\<close> is given by what it
  does with the bytes of a regular file (it fails for a path that is none); the three
  libheif calls return \<open>None\<close> where \<open>err.code\<close> is not \<open>heif_error_Ok\<close>. \<open>WebPEncodeRGB\<close>
  returns the encoded bytes, whose length is the size it reports (0 for a failure).
\<close>

record ('c, 'h, 'i) codec =
  heif_context_read_from_file :: "bytes \<Rightarrow> 'c option"
  heif_context_get_primary_image_handle :: "'c \<Rightarrow> 'h option"
  heif_decode_image :: "'h \<Rightarrow> 'i option"
  heif_image_get_width :: "'i \<Rightarrow> int"
  heif_image_get_height :: "'i \<Rightarrow> int"
  heif_image_get_plane_readonly :: "'i \<Rightarrow> bytes \<times> int"
  WebPEncodeRGB :: "bytes \<Rightarrow> int \<Rightarrow> int \<Rightarrow> int \<Rightarrow> int \<Rightarrow> bytes"

subsection \<open>Converting one file\<close>

text \<open>What a call returns, or an exception that leaves it (\<open>fs::file_size\<close>).\<close>

datatype conv = Returned bool | Threw

definition convert_heic_to_webp ::
  "('c, 'h, 'i) codec \<Rightarrow> world \<Rightarrow> path \<Rightarrow> path \<Rightarrow> options \<Rightarrow> world \<times> event list \<times> conv" where
  "convert_heic_to_webp L w input_path output_path opts =
     (let lg0 = (if verbose opts then [Decoding input_path] else [])
      in case (case read_file w input_path of
                 None \<Rightarrow> None
               | Some b \<Rightarrow> heif_context_read_from_file L b) of
           None \<Rightarrow> (w, lg0 @ [Failed_read], Returned False)
         | Some ctx \<Rightarrow>
      (case heif_context_get_primary_image_handle L ctx of
           None \<Rightarrow> (w, lg0 @ [Failed_handle], Returned False)
         | Some handle \<Rightarrow>
      (case heif_decode_image L handle of
           None \<Rightarrow> (w, lg0 @ [Failed_decode], Returned False)
         | Some img \<Rightarrow>
      (let width = heif_image_get_width L img;
           height = heif_image_get_height L img;
           lg1 = lg0 @ (if verbose opts then [Dimensions width height, Encoding output_path] else []);
           (rgb_data, stride) = heif_image_get_plane_readonly L img;
           webp_data = WebPEncodeRGB L rgb_data width height stride (quality opts)
       in if length webp_data = 0 then (w, lg1 @ [Failed_encode], Returned False)
          else case ofstream_open w output_path of
                 None \<Rightarrow> (w, lg1 @ [Failed_create output_path], Returned False)
               | Some w1 \<Rightarrow>
                   (let w2 = ofstream_write w1 output_path webp_data
                    in if verbose opts then
                         (case file_size w2 input_path of
                            None \<Rightarrow> (w2, lg1, Threw)
                          | Some input_size \<Rightarrow>
                              (w2, lg1 @ [Size_report input_size (length webp_data)], Returned True))
                       else (w2, lg1, Returned True))))))"

subsection \<open>The batch loop and \<open>main\<close>\<close>

text \<open>
  The state of the loop in \<open>main\<close>: the file system, what was printed, and the two
  counters. The counters are C++ \<open>int\<close>s; they are integers here, right for a batch of
  fewer than \<open>2^31\<close> files (beyond that the increment overflows, which is undefined).
\<close>

record batch =
  bworld :: world
  blog :: "event list"
  success_count :: int
  error_count :: int

text \<open>The loop; the flag says that an exception left it.\<close>

fun batch_loop ::
  "('c, 'h, 'i) codec \<Rightarrow> options \<Rightarrow> path list \<Rightarrow> batch \<Rightarrow> batch \<times> bool" where
  "batch_loop L opts [] st = (st, False)"
| "batch_loop L opts (file # files) st =
     (let output_path = get_output_path file (output_dir opts)
      in case convert_heic_to_webp L (bworld st) file output_path opts of
           (w', lg, Threw) \<Rightarrow> (st\<lparr>bworld := w', blog := blog st @ lg\<rparr>, True)
         | (w', lg, Returned True) \<Rightarrow>
             batch_loop L opts files
               (st\<lparr>bworld := w',
                   blog := blog st @ lg @
                     [if verbose opts then Done
                      else Converted (filename file) (filename output_path)],
                   success_count := success_count st + 1\<rparr>)
         | (w', lg, Returned False) \<Rightarrow>
             batch_loop L opts files
               (st\<lparr>bworld := w',
                   blog := blog st @ lg @ [Failed (filename file)],
                   error_count := error_count st + 1\<rparr>))"

text \<open>Lines 269 to 291 of \<open>main\<close>: the counters, the loop, the summary, the exit code.\<close>

definition run_batch ::
  "('c, 'h, 'i) codec \<Rightarrow> options \<Rightarrow> world \<Rightarrow> event list \<Rightarrow> path list \<Rightarrow> world \<times> event list \<times> status" where
  "run_batch L opts w lg files =
     (case batch_loop L opts files \<lparr>bworld = w, blog = lg, success_count = 0, error_count = 0\<rparr> of
        (st, True) \<Rightarrow> (bworld st, blog st, Terminate)
      | (st, False) \<Rightarrow>
          (bworld st, blog st @ [Summary (success_count st) (length files)],
           Exit (if error_count st > 0 then 1 else 0)))"

text \<open>
  The \<open>files\<close> vector that lines 256 to 267 of \<open>main\<close> build for an input path that
  exists (\<open>None\<close>: the iteration threw).
\<close>

definition discover :: "world \<Rightarrow> path \<Rightarrow> bool \<Rightarrow> path list option" where
  "discover w input_path rec =
     (if is_directory w input_path then find_heic_files w input_path rec
      else Some [input_path])"

text \<open>
  \<open>main\<close>, on \<open>argv\<close> (the program's name first): the file system it leaves, what it
  printed, and how it ended.
\<close>

definition main ::
  "('c, 'h, 'i) codec \<Rightarrow> world \<Rightarrow> string list \<Rightarrow> world \<times> event list \<times> status" where
  "main L w argv =
     (if length argv < 2 then (w, [Usage], Exit 1)
      else case parse_args argv of
             (lg, Inl st) \<Rightarrow> (w, lg, st)
           | (lg, Inr opts) \<Rightarrow>
      (if input opts = [] then (w, lg @ [Usage], Exit 1)
       else let input_path = absolute w (path_of_string (input opts))
            in if \<not> exists w input_path then (w, lg @ [Input_not_found input_path], Exit 1)
               else case (if output_dir opts \<noteq> []
                          then create_directories w (path_of_string (output_dir opts))
                          else (w, True)) of
                      (w1, False) \<Rightarrow> (w1, lg, Terminate)
                    | (w1, True) \<Rightarrow>
                        if is_directory w1 input_path then
                          (case find_heic_files w1 input_path (recursive opts) of
                             None \<Rightarrow> (w1, lg, Terminate)
                           | Some files \<Rightarrow>
                               if files = [] then (w1, lg @ [No_heic_found], Exit 0)
                               else run_batch L opts w1 (lg @ [Found_files (length files)]) files)
                        else run_batch L opts w1 lg [input_path]))"

subsection \<open>Notions used to state the properties\<close>

text \<open>
  The positional arguments of a command line, as the parser tells them from the rest:
  an argument that does not start with a dash and is not the value that follows
  \<open>-o\<close>, \<open>--output\<close>, \<open>-q\<close> or \<open>--quality\<close>.
\<close>

fun positionals :: "string list \<Rightarrow> string list" where
  "positionals [] = []"
| "positionals (arg # rest) =
     (if arg \<in> {''-o'', ''--output'', ''-q'', ''--quality''} then
        (case rest of [] \<Rightarrow> [] | v # rest' \<Rightarrow> positionals rest')
      else if arg \<noteq> [] \<and> hd arg = CHR ''-'' then positionals rest
      else arg # positionals rest)"

definition is_quality_flag :: "string \<Rightarrow> bool" where
  "is_quality_flag arg \<longleftrightarrow> arg = ''-q'' \<or> arg = ''--quality''"


text \<open>The branch of the parser's \<open>if\<close> chain that an argument takes.\<close>

datatype arg_kind = Help | Output | Quality | Recursive | Verbose | Unknown | Positional

definition arg_kind :: "string \<Rightarrow> arg_kind" where
  "arg_kind arg =
     (if arg = ''-h'' \<or> arg = ''--help'' then Help
      else if arg = ''-o'' \<or> arg = ''--output'' then Output
      else if arg = ''-q'' \<or> arg = ''--quality'' then Quality
      else if arg = ''-r'' \<or> arg = ''--recursive'' then Recursive
      else if arg = ''-v'' \<or> arg = ''--verbose'' then Verbose
      else if arg \<noteq> [] \<and> hd arg = CHR ''-'' then Unknown
      else Positional)"

text \<open>A path whose elements hold no separator; every path made from a string is one.\<close>

definition wf_path :: "path \<Rightarrow> bool" where
  "wf_path p \<longleftrightarrow> (\<forall>e \<in> set (elems p). CHR ''/'' \<notin> set e)"

text \<open>
  A well-formed directory listing: the names are file names (not empty, not \<open>.\<close> or
  \<open>..\<close>, without a separator), no name occurs twice, and the same holds below.
\<close>

definition valid_name :: "string \<Rightarrow> bool" where
  "valid_name n \<longleftrightarrow> n \<noteq> [] \<and> n \<noteq> ''.'' \<and> n \<noteq> ''..'' \<and> CHR ''/'' \<notin> set n"

fun wf_ents :: "(string \<times> node) list \<Rightarrow> bool" where
  "wf_ents [] = True"
| "wf_ents ((n, File b) # rest) = (valid_name n \<and> n \<notin> fst ` set rest \<and> wf_ents rest)"
| "wf_ents ((n, Dir sub) # rest) =
     (valid_name n \<and> n \<notin> fst ` set rest \<and> wf_ents sub \<and> wf_ents rest)"

text \<open>
  An extension that is \<open>.heic\<close> or \<open>.heif\<close> when upper and lower case are not told
  apart, letter by letter.
\<close>

definition heic_ext :: "string \<Rightarrow> bool" where
  "heic_ext e \<longleftrightarrow>
     (\<exists>c1 c2 c3 c4. e = [CHR ''.'', c1, c2, c3, c4] \<and>
        c1 \<in> {CHR ''h'', CHR ''H''} \<and> c2 \<in> {CHR ''e'', CHR ''E''} \<and>
        c3 \<in> {CHR ''i'', CHR ''I''} \<and> c4 \<in> {CHR ''c'', CHR ''C'', CHR ''f'', CHR ''F''})"

text \<open>The elements of a directory's path without the empty one a trailing separator gives.\<close>

definition strip_slash :: "string list \<Rightarrow> string list" where
  "strip_slash es = (if es \<noteq> [] \<and> last es = [] then butlast es else es)"

text \<open>
  The three libheif calls of a conversion as one step: the decoded image, or the line
  printed for the call that failed. \<open>encoded\<close> is what \<open>WebPEncodeRGB\<close> returns for an
  image under the options.
\<close>

definition decode_stage :: "('c, 'h, 'i) codec \<Rightarrow> world \<Rightarrow> path \<Rightarrow> event + 'i" where
  "decode_stage L w input_path =
     (case (case read_file w input_path of
              None \<Rightarrow> None
            | Some b \<Rightarrow> heif_context_read_from_file L b) of
        None \<Rightarrow> Inl Failed_read
      | Some ctx \<Rightarrow>
          (case heif_context_get_primary_image_handle L ctx of
             None \<Rightarrow> Inl Failed_handle
           | Some handle \<Rightarrow>
               (case heif_decode_image L handle of
                  None \<Rightarrow> Inl Failed_decode
                | Some img \<Rightarrow> Inr img)))"

definition encoded :: "('c, 'h, 'i) codec \<Rightarrow> options \<Rightarrow> 'i \<Rightarrow> bytes" where
  "encoded L opts img =
     WebPEncodeRGB L (fst (heif_image_get_plane_readonly L img))
       (heif_image_get_width L img) (heif_image_get_height L img)
       (snd (heif_image_get_plane_readonly L img)) (quality opts)"

text \<open>The lines a verbose conversion prints before it writes.\<close>

definition progress :: "('c, 'h, 'i) codec \<Rightarrow> options \<Rightarrow> path \<Rightarrow> path \<Rightarrow> 'i \<Rightarrow> event list" where
  "progress L opts input_path output_path img =
     (if verbose opts
      then [Decoding input_path,
            Dimensions (heif_image_get_width L img) (heif_image_get_height L img),
            Encoding output_path]
      else [])"

text \<open>What a stream on \<open>p\<close> stores of the bytes written to it.\<close>

definition stored :: "world \<Rightarrow> path \<Rightarrow> bytes \<Rightarrow> bytes" where
  "stored w p data = (case write_limit w p of None \<Rightarrow> data | Some k \<Rightarrow> take k data)"

text \<open>
  The conversions of a batch as the loop of \<open>main\<close> makes them, one after another, each
  in the file system the one before left: the source, the lines the conversion
  printed, and its result. Nothing follows a conversion that threw.
\<close>

fun attempts ::
  "('c, 'h, 'i) codec \<Rightarrow> options \<Rightarrow> world \<Rightarrow> path list \<Rightarrow> (path \<times> event list \<times> conv) list" where
  "attempts L opts w [] = []"
| "attempts L opts w (file # files) =
     (case convert_heic_to_webp L w file (get_output_path file (output_dir opts)) opts of
        (w', lg, Threw) \<Rightarrow> [(file, lg, Threw)]
      | (w', lg, Returned ok) \<Rightarrow> (file, lg, Returned ok) # attempts L opts w' files)"

definition results :: "(path \<times> event list \<times> conv) list \<Rightarrow> conv list" where
  "results tr = map (\<lambda>t. snd (snd t)) tr"

text \<open>
  The lines of the loop in \<open>main\<close> that report one file: \<open>Done\<close>, the pair of names
  of a converted file, or \<open>Failed\<close> with a name; the line that a verbose conversion
  starts with; and the report the loop prints for a file, after a conversion that
  returned true or false.
\<close>

definition is_report :: "event \<Rightarrow> bool" where
  "is_report e = (case e of Done \<Rightarrow> True | Converted a b \<Rightarrow> True | Failed n \<Rightarrow> True | _ \<Rightarrow> False)"

definition is_decoding :: "event \<Rightarrow> bool" where
  "is_decoding e = (case e of Decoding p \<Rightarrow> True | _ \<Rightarrow> False)"

definition report :: "options \<Rightarrow> path \<Rightarrow> bool \<Rightarrow> event" where
  "report opts f ok =
     (if ok then (if verbose opts then Done
                  else Converted (filename f) (filename (get_output_path f (output_dir opts))))
      else Failed (filename f))"

text \<open>How a run of \<open>main\<close> ended.\<close>

definition exit_status :: "world \<times> event list \<times> status \<Rightarrow> status" where
  "exit_status r = snd (snd r)"




subsection \<open>An example file system and codec\<close>

text \<open>
  \<open>/home/photos\<close> holds two pictures, a text file, a picture that does not decode and a
  subdirectory; \<open>/home/photo.jpg\<close> is a picture under another extension. The current
  directory is \<open>/home\<close>. The example codec refuses a file that starts with a zero byte
  and encodes by putting the byte 7 in front.
\<close>

definition ex_photos :: "(string \<times> node) list" where
  "ex_photos =
     [(''a.heic'', File [1]), (''b.HEIF'', File [2]), (''notes.txt'', File [3]),
      (''broken.heic'', File [0]),
      (''sub'', Dir [(''c.heic'', File [4]), (''d.heic'', Dir [])])]"

definition ex_world :: world where
  "ex_world =
     \<lparr>root = Dir [(''home'', Dir [(''photos'', Dir ex_photos), (''photo.jpg'', File [5])])],
      cwd = [''home''],
      write_limit = (\<lambda>p. None)\<rparr>"

definition ex_codec :: "(bytes, bytes, bytes) codec" where
  "ex_codec =
     \<lparr>heif_context_read_from_file = (\<lambda>b. if b = [] \<or> hd b = 0 then None else Some b),
      heif_context_get_primary_image_handle = Some,
      heif_decode_image = Some,
      heif_image_get_width = (\<lambda>i. 1),
      heif_image_get_height = (\<lambda>i. 1),
      heif_image_get_plane_readonly = (\<lambda>i. (i, 3)),
      WebPEncodeRGB = (\<lambda>rgb width height stride q. 7 # rgb)\<rparr>"

text \<open>The directory \<open>photos/\<close> of the example, made absolute as \<open>main\<close> does.\<close>

definition ex_dir :: path where
  "ex_dir = absolute ex_world (path_of_string ''photos/'')"

text \<open>The file \<open>photo.jpg\<close> of the example, made absolute as \<open>main\<close> does.\<close>

definition ex_jpg :: path where
  "ex_jpg = absolute ex_world (path_of_string ''photo.jpg'')"

text \<open>
  The picture \<open>a.heic\<close> of the example, the world after it was converted next to
  itself under the default options, and the example on a device that takes a single
  byte for every file.
\<close>

definition ex_a :: path where
  "ex_a = \<lparr>has_root = True, elems = [''home'', ''photos'', ''a.heic'']\<rparr>"

definition ex_converted :: world where
  "ex_converted =
     fst (convert_heic_to_webp ex_codec ex_world ex_a (get_output_path ex_a []) default_options)"

definition ex_full :: world where
  "ex_full = ex_world\<lparr>write_limit := (\<lambda>p. Some 1)\<rparr>"


text \<open>
  The batch that \<open>photos/\<close> gives with its subdirectory, where a picture follows the
  one that does not decode, and a batch with that one in the middle.
\<close>

definition ex_tree :: "path list" where
  "ex_tree =
     [\<lparr>has_root = True, elems = [''home'', ''photos'', ''a.heic'']\<rparr>,
      \<lparr>has_root = True, elems = [''home'', ''photos'', ''b.HEIF'']\<rparr>,
      \<lparr>has_root = True, elems = [''home'', ''photos'', ''broken.heic'']\<rparr>,
      \<lparr>has_root = True, elems = [''home'', ''photos'', ''sub'', ''c.heic'']\<rparr>]"

definition ex_middle :: "path list" where
  "ex_middle =
     [\<lparr>has_root = True, elems = [''home'', ''photos'', ''a.heic'']\<rparr>,
      \<lparr>has_root = True, elems = [''home'', ''photos'', ''broken.heic'']\<rparr>,
      \<lparr>has_root = True, elems = [''home'', ''photos'', ''b.HEIF'']\<rparr>]"

text \<open>
  Two pictures of the same name \<open>a.heic\<close> in the directories \<open>x\<close> and \<open>y\<close> of \<open>/home/t\<close>.
  The one that the directory lists first does not decode: the one in \<open>x\<close> when the
  flag is set, the one in \<open>y\<close> otherwise. Then the directory and the two pictures
  as \<open>main\<close> names them.
\<close>

definition ex_twins :: "bool \<Rightarrow> world" where
  "ex_twins x_first =
     \<lparr>root = Dir [(''home'', Dir [(''t'',
         Dir (if x_first
              then [(''x'', Dir [(''a.heic'', File [0])]), (''y'', Dir [(''a.heic'', File [1])])]
              else [(''y'', Dir [(''a.heic'', File [0])]), (''x'', Dir [(''a.heic'', File [1])])]))])],
      cwd = [''home''],
      write_limit = (\<lambda>p. None)\<rparr>"

definition ex_t :: path where
  "ex_t = \<lparr>has_root = True, elems = [''home'', ''t'']\<rparr>"

definition ex_x :: path where
  "ex_x = \<lparr>has_root = True, elems = [''home'', ''t'', ''x'', ''a.heic'']\<rparr>"

definition ex_y :: path where
  "ex_y = \<lparr>has_root = True, elems = [''home'', ''t'', ''y'', ''a.heic'']\<rparr>"

text \<open>The options that \<open>-r\<close> after the input \<open>t\<close> gives.\<close>

definition ex_opts :: options where
  "ex_opts = default_options\<lparr>input := ''t'', recursive := True\<rparr>"

section \<open>Properties\<close>

subsection \<open>Argument parsing\<close>

text \<open>One step of the parser, by the branch the argument takes.\<close>

lemma parse_loop_kind:
  "parse_loop opts (arg # rest) =
     (case arg_kind arg of
        Help \<Rightarrow> ([Usage], Inl (Exit 0))
      | Output \<Rightarrow> (case rest of
           v # rest' \<Rightarrow> parse_loop (opts\<lparr>output_dir := v\<rparr>) rest'
         | [] \<Rightarrow> ([Missing_argument arg], Inl (Exit 1)))
      | Quality \<Rightarrow> (case rest of
           v # rest' \<Rightarrow>
             (case stoi v of
                Inl e \<Rightarrow> ([], Inl Terminate)
              | Inr n \<Rightarrow>
                  if n < 1 \<or> n > 100 then ([Quality_range], Inl (Exit 1))
                  else parse_loop (opts\<lparr>quality := n\<rparr>) rest')
         | [] \<Rightarrow> ([Missing_argument arg], Inl (Exit 1)))
      | Recursive \<Rightarrow> parse_loop (opts\<lparr>recursive := True\<rparr>) rest
      | Verbose \<Rightarrow> parse_loop (opts\<lparr>verbose := True\<rparr>) rest
      | Unknown \<Rightarrow> ([Unknown_option arg], Inl (Exit 1))
      | Positional \<Rightarrow> parse_loop (opts\<lparr>input := arg\<rparr>) rest)"
  unfolding arg_kind_def by simp

lemma positionals_kind:
  "positionals (arg # rest) =
     (case arg_kind arg of
        Help \<Rightarrow> positionals rest
      | Output \<Rightarrow> (case rest of [] \<Rightarrow> [] | v # rest' \<Rightarrow> positionals rest')
      | Quality \<Rightarrow> (case rest of [] \<Rightarrow> [] | v # rest' \<Rightarrow> positionals rest')
      | Recursive \<Rightarrow> positionals rest
      | Verbose \<Rightarrow> positionals rest
      | Unknown \<Rightarrow> positionals rest
      | Positional \<Rightarrow> arg # positionals rest)"
  unfolding arg_kind_def by auto

declare parse_loop.simps(2) [simp del] positionals.simps(2) [simp del]


lemma parse_loop_suffix_induct:
  assumes nil: "\<And>opts. P opts []"
    and step: "\<And>opts arg rest. (\<And>o'. P o' rest) \<Longrightarrow> (\<And>o' v rest'. rest = v # rest' \<Longrightarrow> P o' rest') \<Longrightarrow> P opts (arg # rest)"
  shows "P opts args"
proof (induction "length args" arbitrary: args opts rule: less_induct)
  case less
  show ?case
  proof (cases args)
    case Nil
    then show ?thesis by (simp add: nil)
  next
    case (Cons arg rest)
    show ?thesis unfolding Cons
    proof (rule step)
      fix o' show "P o' rest" using less[of rest o'] Cons by simp
    next
      fix o' v rest' assume "rest = v # rest'"
      then show "P o' rest'" using less[of rest' o'] Cons by simp
    qed
  qed
qed

lemma parse_loop_normal_log:
  "parse_loop opts args = (lg, Inr opts') \<Longrightarrow> lg = []"
proof (induction opts args rule: parse_loop_suffix_induct)
  case (1 opts)
  then show ?case by simp
next
  case (2 opts arg rest)
  show ?case
  proof (cases "arg_kind arg")
    case Help
    with 2(3) show ?thesis by (simp add: parse_loop_kind)
  next
    case Output
    with 2(3) 2(2) show ?thesis by (cases rest) (simp_all add: parse_loop_kind)
  next
    case Quality
    with 2(3) 2(2) show ?thesis
      by (cases rest; cases "stoi (hd rest)") (simp_all add: parse_loop_kind split: if_splits)
  next
    case Recursive
    with 2(3) 2(1) show ?thesis by (simp add: parse_loop_kind)
  next
    case Verbose
    with 2(3) 2(1) show ?thesis by (simp add: parse_loop_kind)
  next
    case Unknown
    with 2(3) show ?thesis by (simp add: parse_loop_kind)
  next
    case Positional
    with 2(3) 2(1) show ?thesis by (simp add: parse_loop_kind)
  qed
qed

lemma parse_loop_append:
  "parse_loop opts pre = (lg, Inr opts') \<Longrightarrow> parse_loop opts (pre @ rest) = parse_loop opts' rest"
proof (induction opts pre rule: parse_loop_suffix_induct)
  case (1 opts)
  then show ?case by simp
next
  case (2 opts arg pre')
  show ?case
  proof (cases "arg_kind arg")
    case Help
    with 2(3) show ?thesis by (simp add: parse_loop_kind)
  next
    case Output
    with 2(3) 2(2) show ?thesis by (cases pre') (simp_all add: parse_loop_kind)
  next
    case Quality
    with 2(3) 2(2) show ?thesis
      by (cases pre'; cases "stoi (hd pre')") (simp_all add: parse_loop_kind split: if_splits)
  next
    case Recursive
    with 2(3) 2(1) show ?thesis by (simp add: parse_loop_kind)
  next
    case Verbose
    with 2(3) 2(1) show ?thesis by (simp add: parse_loop_kind)
  next
    case Unknown
    with 2(3) show ?thesis by (simp add: parse_loop_kind)
  next
    case Positional
    with 2(3) 2(1) show ?thesis by (simp add: parse_loop_kind)
  qed
qed

lemma parse_loop_input:
  "parse_loop opts args = (lg, Inr opts') \<Longrightarrow>
   input opts' = (if positionals args = [] then input opts else last (positionals args))"
proof (induction opts args rule: parse_loop_suffix_induct)
  case (1 opts)
  then show ?case by simp
next
  case (2 opts arg rest)
  show ?case
  proof (cases "arg_kind arg")
    case Help
    with 2(3) show ?thesis by (simp add: parse_loop_kind)
  next
    case Output
    with 2(3) 2(2) show ?thesis by (cases rest) (simp_all add: parse_loop_kind positionals_kind)
  next
    case Quality
    with 2(3) 2(2) show ?thesis
      by (cases rest; cases "stoi (hd rest)")
         (simp_all add: parse_loop_kind positionals_kind split: if_splits)
  next
    case Recursive
    with 2(3) 2(1) show ?thesis by (simp add: parse_loop_kind positionals_kind)
  next
    case Verbose
    with 2(3) 2(1) show ?thesis by (simp add: parse_loop_kind positionals_kind)
  next
    case Unknown
    with 2(3) show ?thesis by (simp add: parse_loop_kind)
  next
    case Positional
    with 2(3) 2(1) show ?thesis by (simp add: parse_loop_kind positionals_kind)
  qed
qed

lemma parse_loop_positionals:
  "args \<noteq> [] \<Longrightarrow> \<forall>a \<in> set args. arg_kind a = Positional \<Longrightarrow>
   parse_loop opts args = ([], Inr (opts\<lparr>input := last args\<rparr>))"
proof (induction args arbitrary: opts)
  case Nil
  then show ?case by simp
next
  case (Cons a rest)
  then have k: "arg_kind a = Positional" by simp
  show ?case
  proof (cases "rest = []")
    case True
    then show ?thesis using k by (simp add: parse_loop_kind)
  next
    case False
    then have "parse_loop (opts\<lparr>input := a\<rparr>) rest = ([], Inr (opts\<lparr>input := a, input := last rest\<rparr>))"
      using Cons.IH[of "opts\<lparr>input := a\<rparr>"] Cons.prems by simp
    then show ?thesis using k False by (simp add: parse_loop_kind)
  qed
qed

lemma stoi_samples:
  "stoi ''90'' = Inr 90" "stoi ''100'' = Inr 100" "stoi ''1'' = Inr 1" "stoi ''101'' = Inr 101"
  "stoi ''0'' = Inr 0" "stoi ''-5'' = Inr (- 5)" "stoi ''500'' = Inr 500"
  "stoi ''abc'' = Inl Invalid_argument" "stoi ''99999999999'' = Inl Out_of_range"
  by (simp_all add: stoi_def isspace_def isdigit_def digit_value_def)

text \<open>
  Claim C9. When a command line has several positional arguments and the parser
  returns, the input is the last of them: every earlier one is overwritten, and the
  parser has printed nothing, so no error or warning was given for them. A command
  line of positional arguments alone always parses, to the default options with the
  last argument as the input.
\<close>

theorem last_positional_wins:
  "(parse_args (prog # args) = (lg, Inr opts) \<and> positionals args \<noteq> [] \<longrightarrow>
      lg = [] \<and> input opts = last (positionals args)) \<and>
   (args \<noteq> [] \<and> (\<forall>a \<in> set args. arg_kind a = Positional) \<longrightarrow>
      parse_args (prog # args) = ([], Inr (default_options\<lparr>input := last args\<rparr>)))"
  using parse_loop_normal_log[of default_options args lg opts]
    parse_loop_input[of default_options args lg opts]
    parse_loop_positionals[of args default_options]
  by (simp add: parse_args_def)

theorem last_positional_wins_witness:
  "parse_args [''prog'', ''a.heic'', ''-q'', ''90'', ''b.heic'', ''c.heic''] =
     ([], Inr (default_options\<lparr>input := ''c.heic'', quality := 90\<rparr>)) \<and>
   positionals [''a.heic'', ''-q'', ''90'', ''b.heic'', ''c.heic''] = [''a.heic'', ''b.heic'', ''c.heic''] \<and>
   input (default_options\<lparr>input := ''c.heic'', quality := 90\<rparr>) = last [''a.heic'', ''b.heic'', ''c.heic''] \<and>
   parse_args [''prog'', ''a.heic'', ''b.heic''] = ([], Inr (default_options\<lparr>input := ''b.heic''\<rparr>))"
proof -
  have p: "parse_args [''prog'', ''a.heic'', ''-q'', ''90'', ''b.heic'', ''c.heic''] =
     ([], Inr (default_options\<lparr>input := ''c.heic'', quality := 90\<rparr>))"
    by (simp add: parse_args_def parse_loop_kind arg_kind_def stoi_samples default_options_def)
  have q: "positionals [''a.heic'', ''-q'', ''90'', ''b.heic'', ''c.heic''] = [''a.heic'', ''b.heic'', ''c.heic'']"
    by (simp add: positionals_kind arg_kind_def)
  have k: "\<forall>a \<in> set [''a.heic'', ''b.heic'']. arg_kind a = Positional" by (simp add: arg_kind_def)
  from last_positional_wins[of "''prog''" "[''a.heic'', ''-q'', ''90'', ''b.heic'', ''c.heic'']"
      "[]" "default_options\<lparr>input := ''c.heic'', quality := 90\<rparr>"]
    last_positional_wins[of "''prog''" "[''a.heic'', ''b.heic'']"] p q k
  show ?thesis by simp
qed

lemma parse_loop_quality:
  assumes "parse_loop opts pre = (lg, Inr opts')" and "is_quality_flag q"
  shows "parse_loop opts (pre @ q # v # rest) =
           (case stoi v of
              Inl e \<Rightarrow> ([], Inl Terminate)
            | Inr n \<Rightarrow> if n < 1 \<or> n > 100 then ([Quality_range], Inl (Exit 1))
                       else parse_loop (opts'\<lparr>quality := n\<rparr>) rest)"
proof -
  have "arg_kind q = Quality" using assms(2) by (auto simp: is_quality_flag_def arg_kind_def)
  then show ?thesis by (simp add: parse_loop_append[OF assms(1)] parse_loop_kind)
qed

lemma main_parse_exit:
  assumes "parse_args (prog # args) = (lg, Inl st)" and "args \<noteq> []"
  shows "main L w (prog # args) = (w, lg, st)"
  using assms by (cases args) (simp_all add: main_def)

lemma parse_single_input:
  "arg_kind a = Positional \<Longrightarrow>
   parse_loop default_options [a] = ([], Inr (default_options\<lparr>input := a\<rparr>))"
  by (simp add: parse_loop_kind)


















text \<open>
  Claim C10. When the value of the quality flag is one for which \<open>std::stoi\<close> throws
  (no digits, as in \<open>-q abc\<close>, or a number that does not fit an \<open>int\<close>), nothing catches the
  exception: the program terminates abnormally, having printed nothing, so neither the
  range check nor its message is reached. The range message with exit code 1 is the
  outcome of a final quality flag exactly when \<open>stoi\<close> returns an integer outside 1 to
  100.
\<close>

theorem unparseable_quality_terminates:
  assumes "parse_loop default_options pre = (lg, Inr opts')"
    and "is_quality_flag q"
  shows "(stoi v = Inl e \<longrightarrow> main L w (prog # pre @ q # v # rest) = (w, [], Terminate)) \<and>
         (parse_args (prog # pre @ [q, v]) = ([Quality_range], Inl (Exit 1)) \<longleftrightarrow>
            (\<exists>n. stoi v = Inr n \<and> (n < 1 \<or> 100 < n)))"
proof -
  have a: "parse_args (prog # pre @ q # v # rest) =
           (case stoi v of
              Inl e \<Rightarrow> ([], Inl Terminate)
            | Inr n \<Rightarrow> if n < 1 \<or> n > 100 then ([Quality_range], Inl (Exit 1))
                       else parse_loop (opts'\<lparr>quality := n\<rparr>) rest)" for rest
    using parse_loop_quality[OF assms, of v rest] by (simp add: parse_args_def)
  have "main L w (prog # pre @ q # v # rest) = (w, [], Terminate)" if "stoi v = Inl e"
    using a[of rest] that main_parse_exit[of prog "pre @ q # v # rest" "[]" Terminate L w] by simp
  moreover have "parse_args (prog # pre @ [q, v]) = ([Quality_range], Inl (Exit 1)) \<longleftrightarrow>
            (\<exists>n. stoi v = Inr n \<and> (n < 1 \<or> 100 < n))"
    using a[of "[]"] by (cases "stoi v") auto
  ultimately show ?thesis by blast
qed

theorem unparseable_quality_terminates_witness:
  "stoi ''abc'' = Inl Invalid_argument \<and>
   main ex_codec ex_world [''prog'', ''photo.heic'', ''-q'', ''abc''] = (ex_world, [], Terminate) \<and>
   stoi ''99999999999'' = Inl Out_of_range \<and>
   main ex_codec ex_world [''prog'', ''photo.heic'', ''-q'', ''99999999999'', ''-v''] = (ex_world, [], Terminate) \<and>
   parse_args [''prog'', ''photo.heic'', ''-q'', ''abc''] \<noteq> ([Quality_range], Inl (Exit 1)) \<and>
   parse_args [''prog'', ''photo.heic'', ''-q'', ''500''] = ([Quality_range], Inl (Exit 1))"
proof -
  have pre: "parse_loop default_options [''photo.heic''] = ([], Inr (default_options\<lparr>input := ''photo.heic''\<rparr>))"
    by (rule parse_single_input) (simp add: arg_kind_def)
  have f: "is_quality_flag ''-q''" by (simp add: is_quality_flag_def)
  note t = unparseable_quality_terminates[OF pre f]
  show ?thesis
    using t[of "''abc''" Invalid_argument ex_codec ex_world "''prog''" "[]"]
      t[of "''99999999999''" Out_of_range ex_codec ex_world "''prog''" "[''-v'']"]
      t[of "''500''" Invalid_argument ex_codec ex_world "''prog''" "[]"] stoi_samples
    by simp
qed

subsection \<open>Paths and output naming\<close>

lemma split_elems_plain:
  "CHR ''/'' \<notin> set s \<Longrightarrow> split_elems cur s = [cur @ s]"
  by (induction s arbitrary: cur) auto

lemma split_elems_no_sep:
  "CHR ''/'' \<notin> set cur \<Longrightarrow> \<forall>e \<in> set (split_elems cur s). CHR ''/'' \<notin> set e"
  by (induction cur s rule: split_elems.induct) auto

lemma wf_path_of_string: "wf_path (path_of_string s)"
  using split_elems_no_sep[of "[]"] by (simp add: wf_path_def path_of_string_def Let_def)

lemma path_of_string_name:
  assumes "CHR ''/'' \<notin> set s" and "s \<noteq> []"
  shows "path_of_string s = name_path s"
proof -
  have "dropWhile (\<lambda>d. d = CHR ''/'') s = s" using assms by (cases s) auto
  moreover have "hd s \<noteq> CHR ''/''" using assms by (cases s) auto
  ultimately show ?thesis
    using assms by (simp add: path_of_string_def name_path_def split_elems_plain)
qed

lemma rfind_dot_props:
  "rfind_dot f = Some pos \<Longrightarrow>
   pos < length f \<and> f ! pos = CHR ''.'' \<and> CHR ''.'' \<notin> set (drop (Suc pos) f)"
proof (induction f arbitrary: pos)
  case Nil
  then show ?case by simp
next
  case (Cons c cs)
  show ?case
  proof (cases "rfind_dot cs")
    case None
    have "CHR ''.'' \<notin> set cs" using None
      by (induction cs) (auto split: option.splits if_splits)
    with Cons.prems None show ?thesis by (auto split: if_splits)
  next
    case (Some k)
    with Cons show ?thesis by auto
  qed
qed

lemma ext_pos_props:
  assumes "ext_pos f = Some pos"
  shows "0 < pos \<and> pos < length f \<and> f ! pos = CHR ''.'' \<and> CHR ''.'' \<notin> set (drop (Suc pos) f)"
  using assms rfind_dot_props[of f pos]
  by (auto simp: ext_pos_def split: if_splits option.splits)

lemma stem_extension: "stem p @ extension p = filename p"
  by (simp add: stem_def extension_def split: option.splits)

lemma extension_shape:
  "extension p = [] \<or> (hd (extension p) = CHR ''.'' \<and> CHR ''.'' \<notin> set (tl (extension p)))"
proof (cases "ext_pos (filename p)")
  case None
  then show ?thesis by (simp add: extension_def)
next
  case (Some pos)
  from ext_pos_props[OF Some] have "pos < length (filename p)" "filename p ! pos = CHR ''.''"
    "CHR ''.'' \<notin> set (drop (Suc pos) (filename p))" by simp_all
  then show ?thesis using Some
    by (simp add: extension_def hd_drop_conv_nth tl_drop drop_Suc)
qed

lemma stem_no_sep: "CHR ''/'' \<notin> set (filename p) \<Longrightarrow> CHR ''/'' \<notin> set (stem p)"
  by (auto simp: stem_def split: option.splits dest: in_set_takeD)

lemma wf_path_filename: "wf_path p \<Longrightarrow> CHR ''/'' \<notin> set (filename p)"
  by (auto simp: wf_path_def filename_def)



lemma filename_append_name:
  "n \<noteq> [] \<Longrightarrow> filename (path_append dir (name_path n)) = n"
  by (simp add: path_append_def name_path_def filename_def)

lemma elems_append_name:
  "elems (path_append dir (name_path n)) =
     (if elems dir \<noteq> [] \<and> last (elems dir) = [] then butlast (elems dir) else elems dir) @ [n]"
  by (simp add: path_append_def name_path_def)

lemma has_root_append_name:
  "has_root (path_append dir (name_path n)) = has_root dir"
  by (simp add: path_append_def name_path_def)

lemma get_output_path_name:
  assumes "wf_path inp"
  shows "get_output_path inp outdir =
           path_append (if outdir = [] then parent_path inp else path_of_string outdir)
             (name_path (stem inp @ ''.webp''))"
proof -
  have "CHR ''/'' \<notin> set (stem inp @ ''.webp'')"
    using stem_no_sep[OF wf_path_filename[OF assms]] by simp
  then have "path_of_string (stem inp @ ''.webp'') = name_path (stem inp @ ''.webp'')"
    by (rule path_of_string_name) simp
  then show ?thesis by (simp add: get_output_path_def Let_def)
qed

lemma rfind_dot_none: "CHR ''.'' \<notin> set e \<Longrightarrow> rfind_dot e = None"
  by (induction e) (auto split: option.splits)

lemma rfind_dot_last:
  "CHR ''.'' \<notin> set e \<Longrightarrow> rfind_dot (s @ CHR ''.'' # e) = Some (length s)"
  by (induction s) (simp_all add: rfind_dot_none)

lemma ext_pos_split:
  assumes "s \<noteq> []" and "CHR ''.'' \<notin> set e" and "s @ ''.'' @ e \<noteq> ''..''"
  shows "ext_pos (s @ ''.'' @ e) = Some (length s)"
proof -
  have "s @ ''.'' @ e \<noteq> ''.''" using assms(1) by (cases s) auto
  then show ?thesis using assms rfind_dot_last[OF assms(2), of s] by (simp add: ext_pos_def)
qed

lemma ext_pos_none:
  assumes "CHR ''.'' \<notin> set f \<or> (\<exists>e. f = CHR ''.'' # e \<and> CHR ''.'' \<notin> set e) \<or> f = ''..''"
  shows "ext_pos f = None"
  using assms rfind_dot_none by (auto simp: ext_pos_def)

lemma file_name_cases:
  "(\<exists>s e. f = s @ ''.'' @ e \<and> s \<noteq> [] \<and> CHR ''.'' \<notin> set e \<and> f \<noteq> ''..'') \<or>
   CHR ''.'' \<notin> set f \<or> (\<exists>e. f = CHR ''.'' # e \<and> CHR ''.'' \<notin> set e) \<or> f = ''..''"
proof (cases "rfind_dot f")
  case None
  have "CHR ''.'' \<notin> set f" using None by (induction f) (auto split: option.splits if_splits)
  then show ?thesis by simp
next
  case (Some pos)
  from rfind_dot_props[OF Some] have p: "pos < length f" "f ! pos = CHR ''.''"
    "CHR ''.'' \<notin> set (drop (Suc pos) f)" by simp_all
  have f: "f = take pos f @ ''.'' @ drop (Suc pos) f"
    using id_take_nth_drop[OF p(1)] p(2) by simp
  show ?thesis
  proof (cases "pos = 0")
    case True
    then have "f = CHR ''.'' # drop (Suc 0) f" using f by simp
    then show ?thesis using p(3) True by blast
  next
    case False
    then have "take pos f \<noteq> []" using p(1) by auto
    then show ?thesis using f p(3) by (cases "f = ''..''") blast+
  qed
qed


lemma get_output_path_elems:
  assumes "elems inp = ds @ [f]" and "CHR ''/'' \<notin> set f"
  shows "get_output_path inp outdir =
           path_append (if outdir = [] then inp\<lparr>elems := ds\<rparr> else path_of_string outdir)
             (name_path (stem inp @ ''.webp''))"
proof -
  have fn: "filename inp = f" using assms(1) by (simp add: filename_def)
  have "CHR ''/'' \<notin> set (stem inp @ ''.webp'')"
    using stem_no_sep[of inp] fn assms(2) by simp
  then have "path_of_string (stem inp @ ''.webp'') = name_path (stem inp @ ''.webp'')"
    by (rule path_of_string_name) simp
  moreover have "parent_path inp = inp\<lparr>elems := ds\<rparr>" using assms(1) by (simp add: parent_path_def)
  ultimately show ?thesis by (simp add: get_output_path_def Let_def)
qed

text \<open>
  Claim C6. Let the source path end in the file name \<open>f\<close>, after the elements \<open>ds\<close>.
  The destination has the elements of a directory followed by one name. The directory
  is the source's own, \<open>ds\<close> under the source's root, when the override is empty, and
  the override as a path otherwise (the single element \<open>outdir\<close>, relative, when the
  override holds no separator). The name is \<open>f\<close> with its last extension replaced by
  \<open>.webp\<close>: when \<open>f\<close> is \<open>s.e\<close> with \<open>s\<close> not empty and no period in \<open>e\<close>, the name is
  \<open>s.webp\<close>, whatever periods \<open>s\<close> holds; when \<open>f\<close> has no extension (no period, a
  period only in front, or \<open>..\<close>), \<open>.webp\<close> is appended. Every file name is of one of
  these forms (\<open>file_name_cases\<close>). For \<open>a.b.heic\<close> the name is \<open>a.b.webp\<close>, with stem
  \<open>a.b\<close>.
\<close>

theorem output_path_resolution:
  assumes "elems inp = ds @ [f]" and "CHR ''/'' \<notin> set f"
  shows "(outdir = [] \<longrightarrow>
            has_root (get_output_path inp outdir) = has_root inp \<and>
            elems (get_output_path inp outdir) =
              strip_slash ds @ [last (elems (get_output_path inp outdir))]) \<and>
         (outdir \<noteq> [] \<longrightarrow>
            has_root (get_output_path inp outdir) = has_root (path_of_string outdir) \<and>
            elems (get_output_path inp outdir) =
              strip_slash (elems (path_of_string outdir)) @ [last (elems (get_output_path inp outdir))]) \<and>
         (outdir \<noteq> [] \<and> CHR ''/'' \<notin> set outdir \<longrightarrow>
            \<not> has_root (get_output_path inp outdir) \<and>
            elems (get_output_path inp outdir) = [outdir, last (elems (get_output_path inp outdir))]) \<and>
         (\<forall>s e. f = s @ ''.'' @ e \<and> s \<noteq> [] \<and> CHR ''.'' \<notin> set e \<and> f \<noteq> ''..'' \<longrightarrow>
            last (elems (get_output_path inp outdir)) = s @ ''.webp'') \<and>
         (CHR ''.'' \<notin> set f \<or> (\<exists>e. f = CHR ''.'' # e \<and> CHR ''.'' \<notin> set e) \<or> f = ''..'' \<longrightarrow>
            last (elems (get_output_path inp outdir)) = f @ ''.webp'') \<and>
         (f = ''a.b.heic'' \<longrightarrow>
            filename (get_output_path inp outdir) = ''a.b.webp'' \<and>
            stem (get_output_path inp outdir) = ''a.b'')"
proof -
  let ?out = "get_output_path inp outdir"
  let ?dir = "if outdir = [] then inp\<lparr>elems := ds\<rparr> else path_of_string outdir"
  note g = get_output_path_elems[OF assms, of outdir]
  have fn: "filename inp = f" using assms(1) by (simp add: filename_def)
  have el: "elems ?out = strip_slash (elems ?dir) @ [stem inp @ ''.webp'']"
    unfolding g by (simp add: elems_append_name strip_slash_def)
  have rt: "has_root ?out = has_root ?dir" unfolding g by (rule has_root_append_name)
  have la: "last (elems ?out) = stem inp @ ''.webp''" using el by simp
  have c1: "outdir = [] \<longrightarrow> has_root ?out = has_root inp \<and>
              elems ?out = strip_slash ds @ [last (elems ?out)]"
  proof
    assume e: "outdir = []"
    have "elems ?out = strip_slash ds @ [stem inp @ ''.webp'']" using el e by simp
    moreover have "has_root ?out = has_root inp" using rt e by simp
    ultimately show "has_root ?out = has_root inp \<and>
              elems ?out = strip_slash ds @ [last (elems ?out)]" by (simp only: la) simp
  qed
  have c2: "outdir \<noteq> [] \<longrightarrow> has_root ?out = has_root (path_of_string outdir) \<and>
              elems ?out = strip_slash (elems (path_of_string outdir)) @ [last (elems ?out)]"
  proof
    assume e: "outdir \<noteq> []"
    have "elems ?out = strip_slash (elems (path_of_string outdir)) @ [stem inp @ ''.webp'']"
      using el e by simp
    moreover have "has_root ?out = has_root (path_of_string outdir)" using rt e by simp
    ultimately show "has_root ?out = has_root (path_of_string outdir) \<and>
              elems ?out = strip_slash (elems (path_of_string outdir)) @ [last (elems ?out)]"
      by (simp only: la) simp
  qed
  have c3: "outdir \<noteq> [] \<and> CHR ''/'' \<notin> set outdir \<longrightarrow>
              \<not> has_root ?out \<and> elems ?out = [outdir, last (elems ?out)]"
  proof
    assume a: "outdir \<noteq> [] \<and> CHR ''/'' \<notin> set outdir"
    then have p: "path_of_string outdir = name_path outdir" by (simp add: path_of_string_name)
    have "elems ?out = [outdir, stem inp @ ''.webp'']"
      using el a by (simp add: p name_path_def strip_slash_def)
    moreover have "\<not> has_root ?out" using rt a by (simp add: p name_path_def)
    ultimately show "\<not> has_root ?out \<and> elems ?out = [outdir, last (elems ?out)]"
      by (simp only: la) simp
  qed
  have c4: "\<forall>s e. f = s @ ''.'' @ e \<and> s \<noteq> [] \<and> CHR ''.'' \<notin> set e \<and> f \<noteq> ''..'' \<longrightarrow>
              last (elems ?out) = s @ ''.webp''"
  proof (intro allI impI)
    fix s e
    assume a: "f = s @ ''.'' @ e \<and> s \<noteq> [] \<and> CHR ''.'' \<notin> set e \<and> f \<noteq> ''..''"
    then have "s \<noteq> []" "CHR ''.'' \<notin> set e" "s @ ''.'' @ e \<noteq> ''..''" "f = s @ ''.'' @ e"
      by auto
    then have "ext_pos f = Some (length s)" using ext_pos_split[of s e] by blast
    then have "stem inp = s" using a fn by (simp add: stem_def)
    then show "last (elems ?out) = s @ ''.webp''" using la by simp
  qed
  have c5: "CHR ''.'' \<notin> set f \<or> (\<exists>e. f = CHR ''.'' # e \<and> CHR ''.'' \<notin> set e) \<or> f = ''..'' \<longrightarrow>
              last (elems ?out) = f @ ''.webp''"
  proof
    assume "CHR ''.'' \<notin> set f \<or> (\<exists>e. f = CHR ''.'' # e \<and> CHR ''.'' \<notin> set e) \<or> f = ''..''"
    then have "ext_pos f = None" by (rule ext_pos_none)
    then have "stem inp = f" using fn by (simp add: stem_def)
    then show "last (elems ?out) = f @ ''.webp''" using la by simp
  qed
  have c6: "f = ''a.b.heic'' \<longrightarrow> filename ?out = ''a.b.webp'' \<and> stem ?out = ''a.b''"
  proof
    assume a: "f = ''a.b.heic''"
    have "f = ''a.b'' @ ''.'' @ ''heic''" using a by simp
    moreover have "''a.b'' \<noteq> []" "CHR ''.'' \<notin> set ''heic''" "f \<noteq> ''..''" using a by simp_all
    ultimately have "last (elems ?out) = ''a.b'' @ ''.webp''" using c4 by blast
    then have fo: "filename ?out = ''a.b.webp''" using el by (simp add: filename_def)
    have "ext_pos ''a.b.webp'' = Some 3" using ext_pos_split[of "''a.b''" "''webp''"] by simp
    then show "filename ?out = ''a.b.webp'' \<and> stem ?out = ''a.b''" using fo by (simp add: stem_def)
  qed
  from c1 c2 c3 c4 c5 c6 show ?thesis by blast
qed


theorem output_path_resolution_witness:
  "get_output_path \<lparr>has_root = True, elems = [''home'', ''photos'', ''a.b.heic'']\<rparr> ''out/'' =
     \<lparr>has_root = False, elems = [''out'', ''a.b.webp'']\<rparr> \<and>
   get_output_path \<lparr>has_root = True, elems = [''home'', ''photos'', ''a.b.heic'']\<rparr> ''/tmp/out'' =
     \<lparr>has_root = True, elems = [''tmp'', ''out'', ''a.b.webp'']\<rparr> \<and>
   get_output_path \<lparr>has_root = True, elems = [''home'', ''photos'', ''a.b.heic'']\<rparr> [] =
     \<lparr>has_root = True, elems = [''home'', ''photos'', ''a.b.webp'']\<rparr> \<and>
   get_output_path \<lparr>has_root = False, elems = [''photos'', ''README'']\<rparr> [] =
     \<lparr>has_root = False, elems = [''photos'', ''README.webp'']\<rparr> \<and>
   stem (get_output_path \<lparr>has_root = True, elems = [''home'', ''photos'', ''a.b.heic'']\<rparr> []) = ''a.b'' \<and>
   get_output_path \<lparr>has_root = False, elems = [''photos'', ''pic.jpeg'']\<rparr> ''out'' =
     \<lparr>has_root = False, elems = [''out'', ''pic.webp'']\<rparr> \<and>
   get_output_path \<lparr>has_root = True, elems = [''home'', ''.hidden'']\<rparr> [] =
     \<lparr>has_root = True, elems = [''home'', ''.hidden.webp'']\<rparr>"
proof -
  let ?p = "\<lparr>has_root = True, elems = [''home'', ''photos'', ''a.b.heic'']\<rparr>"
  let ?d = "\<lparr>has_root = False, elems = [''photos'', ''README'']\<rparr>"
  have e: "elems ?p = [''home'', ''photos''] @ [''a.b.heic'']" "CHR ''/'' \<notin> set ''a.b.heic''"
    by simp_all
  have ed: "elems ?d = [''photos''] @ [''README'']" "CHR ''/'' \<notin> set ''README''" by simp_all
  have f: "''a.b.heic'' = ''a.b'' @ ''.'' @ ''heic'' \<and> ''a.b'' \<noteq> [] \<and> CHR ''.'' \<notin> set ''heic'' \<and>
           ''a.b.heic'' \<noteq> ''..''" by simp
  have fd: "CHR ''.'' \<notin> set ''README'' \<or> (\<exists>e. ''README'' = CHR ''.'' # e \<and> CHR ''.'' \<notin> set e) \<or>
            ''README'' = ''..''" by simp
  have o1: "path_of_string ''out/'' = \<lparr>has_root = False, elems = [''out'', []]\<rparr>"
    by (simp add: path_of_string_def)
  have o2: "path_of_string ''/tmp/out'' = \<lparr>has_root = True, elems = [''tmp'', ''out'']\<rparr>"
    by (simp add: path_of_string_def)
  note t = output_path_resolution[OF e]
  have n: "last (elems (get_output_path ?p outdir)) = ''a.b.webp''" for outdir
    using t[of outdir] f by (metis append_Cons append_Nil)
  have a: "get_output_path ?p ''out/'' = \<lparr>has_root = False, elems = [''out'', ''a.b.webp'']\<rparr>"
    using t[of "''out/''"] n[of "''out/''"] by (simp add: o1 strip_slash_def path.equality)
  have b: "get_output_path ?p ''/tmp/out'' = \<lparr>has_root = True, elems = [''tmp'', ''out'', ''a.b.webp'']\<rparr>"
    using t[of "''/tmp/out''"] n[of "''/tmp/out''"] by (simp add: o2 strip_slash_def path.equality)
  have c: "get_output_path ?p [] = \<lparr>has_root = True, elems = [''home'', ''photos'', ''a.b.webp'']\<rparr>"
    using t[of "[]"] n[of "[]"] by (simp add: strip_slash_def path.equality)
  have nd: "last (elems (get_output_path ?d [])) = ''README.webp''"
    using output_path_resolution[OF ed, of "[]"] fd by simp
  have d: "get_output_path ?d [] = \<lparr>has_root = False, elems = [''photos'', ''README.webp'']\<rparr>"
    using output_path_resolution[OF ed, of "[]"] nd by (simp add: strip_slash_def path.equality)
  have s: "stem (get_output_path ?p []) = ''a.b''" using t[of "[]"] by simp
  have o3: "path_of_string ''out'' = \<lparr>has_root = False, elems = [''out'']\<rparr>"
    by (simp add: path_of_string_def)
  have ej: "elems \<lparr>has_root = False, elems = [''photos'', ''pic.jpeg'']\<rparr> = [''photos''] @ [''pic.jpeg'']"
    "CHR ''/'' \<notin> set ''pic.jpeg''" by simp_all
  have fj: "''pic.jpeg'' = ''pic'' @ ''.'' @ ''jpeg'' \<and> ''pic'' \<noteq> [] \<and> CHR ''.'' \<notin> set ''jpeg'' \<and>
            ''pic.jpeg'' \<noteq> ''..''" by simp
  have nj: "last (elems (get_output_path \<lparr>has_root = False, elems = [''photos'', ''pic.jpeg'']\<rparr> ''out'')) = ''pic.webp''"
    using output_path_resolution[OF ej, of "''out''"] fj by (metis append_Cons append_Nil)
  have j: "get_output_path \<lparr>has_root = False, elems = [''photos'', ''pic.jpeg'']\<rparr> ''out'' =
     \<lparr>has_root = False, elems = [''out'', ''pic.webp'']\<rparr>"
    using output_path_resolution[OF ej, of "''out''"] nj
    by (simp add: o3 strip_slash_def path.equality)
  have eh: "elems \<lparr>has_root = True, elems = [''home'', ''.hidden'']\<rparr> = [''home''] @ [''.hidden'']"
    "CHR ''/'' \<notin> set ''.hidden''" by simp_all
  have fh: "CHR ''.'' \<notin> set ''.hidden'' \<or> (\<exists>e. ''.hidden'' = CHR ''.'' # e \<and> CHR ''.'' \<notin> set e) \<or>
            ''.hidden'' = ''..''" by simp
  have nh: "last (elems (get_output_path \<lparr>has_root = True, elems = [''home'', ''.hidden'']\<rparr> [])) = ''.hidden.webp''"
    using output_path_resolution[OF eh, of "[]"] fh by simp
  have h: "get_output_path \<lparr>has_root = True, elems = [''home'', ''.hidden'']\<rparr> [] =
     \<lparr>has_root = True, elems = [''home'', ''.hidden.webp'']\<rparr>"
    using output_path_resolution[OF eh, of "[]"] nh by (simp add: strip_slash_def path.equality)
  have k: "get_output_path ?p ''out/'' = \<lparr>has_root = False, elems = [''out'', ''a.b.webp'']\<rparr>"
    "get_output_path ?p ''/tmp/out'' = \<lparr>has_root = True, elems = [''tmp'', ''out'', ''a.b.webp'']\<rparr>"
    "get_output_path ?p [] = \<lparr>has_root = True, elems = [''home'', ''photos'', ''a.b.webp'']\<rparr>"
    "get_output_path ?d [] = \<lparr>has_root = False, elems = [''photos'', ''README.webp'']\<rparr>"
    "get_output_path \<lparr>has_root = False, elems = [''photos'', ''pic.jpeg'']\<rparr> ''out'' =
       \<lparr>has_root = False, elems = [''out'', ''pic.webp'']\<rparr>"
    "get_output_path \<lparr>has_root = True, elems = [''home'', ''.hidden'']\<rparr> [] =
       \<lparr>has_root = True, elems = [''home'', ''.hidden.webp'']\<rparr>"
    by code_simp+
  from a b c d s j h k show ?thesis by simp
qed

subsection \<open>The file system tree and discovery\<close>

lemma tolower_letters:
  "tolower c = CHR ''.'' \<longleftrightarrow> c = CHR ''.''"
  "tolower c = CHR ''h'' \<longleftrightarrow> c = CHR ''h'' \<or> c = CHR ''H''"
  "tolower c = CHR ''e'' \<longleftrightarrow> c = CHR ''e'' \<or> c = CHR ''E''"
  "tolower c = CHR ''i'' \<longleftrightarrow> c = CHR ''i'' \<or> c = CHR ''I''"
  "tolower c = CHR ''c'' \<longleftrightarrow> c = CHR ''c'' \<or> c = CHR ''C''"
  "tolower c = CHR ''f'' \<longleftrightarrow> c = CHR ''f'' \<or> c = CHR ''F''"
  by (auto simp: tolower_def split: if_splits)

lemma lower_heic_ext:
  "(map tolower e = ''.heic'' \<or> map tolower e = ''.heif'') \<longleftrightarrow> heic_ext e"
  unfolding heic_ext_def
  by (auto simp: map_eq_Cons_conv tolower_letters)

lemma lookup_c_Dir_Cons:
  "lookup_c (Dir ((n, c) # rest)) (e # es) =
     (if e = n then lookup_c c es else lookup_c (Dir rest) (e # es))"
  by simp

lemma lookup_c_absent:
  "n \<notin> fst ` set rest \<Longrightarrow> lookup_c (Dir rest) (n # es) = None"
proof -
  assume "n \<notin> fst ` set rest"
  then have "map_of rest n = None" by (simp add: map_of_eq_None_iff)
  then show ?thesis by simp
qed

lemma lookup_c_File: "lookup_c (File b) ns = (if ns = [] then Some (File b) else None)"
  by (cases ns) simp_all

lemma lookup_c_append:
  "lookup_c r (xs @ ys) = (case lookup_c r xs of None \<Rightarrow> None | Some d \<Rightarrow> lookup_c d ys)"
proof (induction xs arbitrary: r)
  case Nil
  then show ?case by simp
next
  case (Cons x xs)
  then show ?case by (cases r) (simp_all split: option.splits)
qed

lemma rec_names_lookup:
  "wf_ents ents \<Longrightarrow> set (rec_names ents) = {ns. ns \<noteq> [] \<and> lookup_c (Dir ents) ns \<noteq> None}"
proof (induction ents rule: rec_names.induct)
  case 1
  show ?case by (auto simp: neq_Nil_conv)
next
  case (2 n b rest)
  then have ih: "set (rec_names rest) = {ns. ns \<noteq> [] \<and> lookup_c (Dir rest) ns \<noteq> None}"
    and fresh: "n \<notin> fst ` set rest" by simp_all
  show ?case
  proof (rule set_eqI)
    fix ns
    show "ns \<in> set (rec_names ((n, File b) # rest)) \<longleftrightarrow>
          ns \<in> {ns. ns \<noteq> [] \<and> lookup_c (Dir ((n, File b) # rest)) ns \<noteq> None}"
    proof (cases ns)
      case Nil
      then show ?thesis using ih by auto
    next
      case (Cons e es)
      show ?thesis
        using ih lookup_c_absent[OF fresh, of es]
        unfolding Cons by (auto simp: lookup_c_Dir_Cons lookup_c_File simp del: lookup_c.simps)
    qed
  qed
next
  case (3 n sub rest)
  then have ih1: "set (rec_names sub) = {ns. ns \<noteq> [] \<and> lookup_c (Dir sub) ns \<noteq> None}"
    and ih2: "set (rec_names rest) = {ns. ns \<noteq> [] \<and> lookup_c (Dir rest) ns \<noteq> None}"
    and fresh: "n \<notin> fst ` set rest" by simp_all
  show ?case
  proof (rule set_eqI)
    fix ns
    show "ns \<in> set (rec_names ((n, Dir sub) # rest)) \<longleftrightarrow>
          ns \<in> {ns. ns \<noteq> [] \<and> lookup_c (Dir ((n, Dir sub) # rest)) ns \<noteq> None}"
    proof (cases ns)
      case Nil
      then show ?thesis using ih1 ih2 by auto
    next
      case (Cons e es)
      show ?thesis
      proof (cases "e = n")
        case True
        have "n # es \<notin> set (rec_names rest)" using ih2 lookup_c_absent[OF fresh, of es] by simp
        then show ?thesis
          using ih1 unfolding Cons True
          by (cases es) (auto simp: lookup_c_Dir_Cons simp del: lookup_c.simps(3))
      next
        case False
        then show ?thesis
          using ih2 unfolding Cons
          by (auto simp: lookup_c_Dir_Cons simp del: lookup_c.simps(3))
      qed
    qed
  qed
qed

lemma rec_names_valid:
  "wf_ents ents \<Longrightarrow> ns \<in> set (rec_names ents) \<Longrightarrow> ns \<noteq> [] \<and> list_all valid_name ns"
  by (induction ents arbitrary: ns rule: rec_names.induct) auto

lemma wf_ents_names:
  "wf_ents ents \<Longrightarrow> n \<in> fst ` set ents \<Longrightarrow> valid_name n"
  by (induction ents rule: wf_ents.induct) auto


lemma canon_append:
  "canon r acc (xs @ ys) = (case canon r acc xs of None \<Rightarrow> None | Some a \<Rightarrow> canon r a ys)"
  by (induction xs arbitrary: acc) auto

lemma canon_lost:
  "lookup_c r (rev acc) = None \<Longrightarrow>
   (case canon r acc ns of None \<Rightarrow> None | Some a \<Rightarrow> lookup_c r (rev a)) = None"
  by (cases ns) (simp_all add: is_dir_at_def)

lemma canon_names:
  "list_all valid_name ns \<Longrightarrow> lookup_c r (rev acc) = Some d \<Longrightarrow>
   (case canon r acc ns of None \<Rightarrow> None | Some a \<Rightarrow> lookup_c r (rev a)) = lookup_c d ns"
proof (induction ns arbitrary: acc d)
  case Nil
  then show ?case by simp
next
  case (Cons n ns)
  from Cons.prems have vn: "valid_name n" and ns: "list_all valid_name ns" by simp_all
  from vn have n: "n \<noteq> []" "n \<noteq> ''.''" "n \<noteq> ''..''" by (simp_all add: valid_name_def)
  show ?case
  proof (cases d)
    case (File b)
    then show ?thesis using Cons.prems by (simp add: is_dir_at_def)
  next
    case (Dir ents)
    have step: "canon r acc (n # ns) = canon r (n # acc) ns"
      using n Cons.prems Dir by (simp add: is_dir_at_def)
    have here: "lookup_c r (rev (n # acc)) = map_of ents n"
      using Cons.prems Dir by (simp add: lookup_c_append split: option.splits)
    show ?thesis
    proof (cases "map_of ents n")
      case None
      then show ?thesis using canon_lost[of r "n # acc" ns] here step Dir by simp
    next
      case (Some c)
      then show ?thesis using Cons.IH[OF ns, of "n # acc" c] here step Dir by simp
    qed
  qed
qed

lemma descend_elems:
  "ns \<noteq> [] \<Longrightarrow> list_all valid_name ns \<Longrightarrow>
   has_root (descend dir ns) = has_root dir \<and> elems (descend dir ns) = strip_slash (elems dir) @ ns"
proof (induction ns rule: rev_induct)
  case Nil
  then show ?case by simp
next
  case (snoc n ns)
  show ?case
  proof (cases "ns = []")
    case True
    then show ?thesis by (simp add: descend_def path_append_def name_path_def strip_slash_def)
  next
    case False
    with snoc have ih: "has_root (descend dir ns) = has_root dir"
      "elems (descend dir ns) = strip_slash (elems dir) @ ns" by simp_all
    have "last ns \<noteq> []" using snoc.prems False
      by (metis last_in_set list_all_append list_all_iff valid_name_def)
    then have l: "last (elems (descend dir ns)) \<noteq> []" using ih False by simp
    have "descend dir (ns @ [n]) = path_append (descend dir ns) (name_path n)"
      by (simp add: descend_def)
    then show ?thesis using ih l False by (simp add: path_append_def name_path_def)
  qed
qed

lemma canon_strip:
  assumes "canon r [] (base @ es) = Some a" and "is_dir_at r (rev a)"
  shows "canon r [] (base @ strip_slash es) = Some a"
proof (cases "es \<noteq> [] \<and> last es = []")
  case False
  then show ?thesis using assms by (auto simp: strip_slash_def)
next
  case True
  then have es: "es = butlast es @ [[]]" by (metis append_butlast_last_id)
  have "canon r [] ((base @ butlast es) @ [[]]) = Some a" using assms(1) es by simp
  then have "canon r [] (base @ butlast es) = Some a"
    unfolding canon_append[of r "[]" "base @ butlast es"]
    by (auto split: option.splits if_splits)
  then show ?thesis using True by (simp add: strip_slash_def)
qed

lemma resolve_descend:
  assumes dir: "resolve w dir = Some (Dir ents)"
    and ns: "ns \<noteq> []" "list_all valid_name ns"
  shows "resolve w (descend dir ns) = lookup_c (Dir ents) ns"
proof -
  let ?base = "if has_root dir then [] else cwd w"
  from dir obtain a where a: "canon (root w) [] (?base @ elems dir) = Some a"
    and la: "lookup_c (root w) (rev a) = Some (Dir ents)"
    by (auto simp: resolve_def locate_def abs_elems_def split: option.splits if_splits)
  have d: "is_dir_at (root w) (rev a)" using la by (simp add: is_dir_at_def)
  note de = descend_elems[OF ns, of dir]
  have "abs_elems w (descend dir ns) = (?base @ strip_slash (elems dir)) @ ns"
    using de by (simp add: abs_elems_def)
  then have "canon (root w) [] (abs_elems w (descend dir ns)) = canon (root w) a ns"
    using canon_strip[OF a d] by (simp only: canon_append) simp
  moreover have "elems (descend dir ns) \<noteq> []" using de ns by simp
  ultimately have "resolve w (descend dir ns) =
      (case canon (root w) a ns of None \<Rightarrow> None | Some a' \<Rightarrow> lookup_c (root w) (rev a'))"
    by (simp add: resolve_def locate_def split: option.splits)
  then show ?thesis using canon_names[OF ns(2) la] by simp
qed

lemma filename_descend:
  "ns \<noteq> [] \<Longrightarrow> list_all valid_name ns \<Longrightarrow> filename (descend dir ns) = last ns"
  using descend_elems[of ns dir] by (simp add: filename_def)


lemma extension_filename: "filename p = filename q \<Longrightarrow> extension p = extension q"
  unfolding extension_def by (simp split: option.splits)

lemma is_heic_entry:
  assumes "resolve w dir = Some (Dir ents)" and "wf_ents ents" and "ns \<in> set (rec_names ents)"
  shows "is_heic_file w (descend dir ns) \<longleftrightarrow>
           (\<exists>b. lookup_c (Dir ents) ns = Some (File b)) \<and> heic_ext (extension (name_path (last ns)))"
proof -
  from rec_names_valid[OF assms(2,3)] have ns: "ns \<noteq> []" "list_all valid_name ns" by simp_all
  have "filename (descend dir ns) = filename (name_path (last ns))"
    using filename_descend[OF ns] by (simp add: filename_def name_path_def)
  then have e: "extension (descend dir ns) = extension (name_path (last ns))"
    by (rule extension_filename)
  have r: "is_regular_file w (descend dir ns) \<longleftrightarrow> (\<exists>b. lookup_c (Dir ents) ns = Some (File b))"
    unfolding is_regular_file_def resolve_descend[OF assms(1) ns]
    by (auto split: option.splits node.splits)
  show ?thesis
    using lower_heic_ext[of "extension (name_path (last ns))"]
    by (auto simp: is_heic_file_def e r Let_def)
qed

lemma child_names:
  assumes "wf_ents ents"
  shows "n \<in> fst ` set ents \<longleftrightarrow> [n] \<in> set (rec_names ents)"
proof -
  have "lookup_c (Dir ents) [n] = map_of ents n" by (simp split: option.splits)
  moreover have "n \<in> fst ` set ents \<longleftrightarrow> map_of ents n \<noteq> None"
    by (simp add: map_of_eq_None_iff)
  ultimately show ?thesis
    unfolding rec_names_lookup[OF assms] by simp
qed

text \<open>
  Claim C5. For a root that is a directory with a well-formed listing, discovery
  returns, as a set, exactly the paths \<open>dir/n1/.../nk\<close> of the regular files below the
  directory whose name has an extension that is \<open>.heic\<close> or \<open>.heif\<close> up to the case of
  its letters: those with \<open>k = 1\<close>, the immediate children, when \<open>recursive\<close> is false,
  and those of every depth when it is true.
\<close>

theorem directory_discovery:
  assumes "resolve w dir = Some (Dir ents)" and "wf_ents ents"
  shows "\<exists>files. find_heic_files w dir rec = Some files \<and>
           set files =
             {descend dir ns | ns.
                ns \<noteq> [] \<and> (rec \<or> length ns = 1) \<and>
                (\<exists>b. lookup_c (Dir ents) ns = Some (File b)) \<and>
                heic_ext (extension (name_path (last ns)))}"
proof (cases rec)
  case True
  have "find_heic_files w dir rec =
          Some (filter (is_heic_file w) (map (descend dir) (rec_names ents)))"
    using True assms(1) by (simp add: find_heic_files_def recursive_directory_iterator_def)
  moreover have "set (filter (is_heic_file w) (map (descend dir) (rec_names ents))) =
      {descend dir ns | ns.
                ns \<noteq> [] \<and> (rec \<or> length ns = 1) \<and>
                (\<exists>b. lookup_c (Dir ents) ns = Some (File b)) \<and>
                heic_ext (extension (name_path (last ns)))}" (is "?L = ?R")
  proof (rule set_eqI)
    fix p
    show "p \<in> ?L \<longleftrightarrow> p \<in> ?R"
    proof
      assume "p \<in> ?L"
      then obtain ns where m: "ns \<in> set (rec_names ents)" and p: "p = descend dir ns"
        and h: "is_heic_file w (descend dir ns)" by auto
      from m have "ns \<noteq> []" using rec_names_valid[OF assms(2)] by simp
      with is_heic_entry[OF assms m] h p True show "p \<in> ?R" by blast
    next
      assume "p \<in> ?R"
      then obtain ns b where p: "p = descend dir ns" and n: "ns \<noteq> []"
        and f: "lookup_c (Dir ents) ns = Some (File b)"
        and e: "heic_ext (extension (name_path (last ns)))" by blast
      have m: "ns \<in> set (rec_names ents)" using n f by (simp add: rec_names_lookup[OF assms(2)])
      with is_heic_entry[OF assms m] f e p show "p \<in> ?L" by auto
    qed
  qed
  ultimately show ?thesis by blast
next
  case False
  have one: "path_append dir (name_path n) = descend dir [n]" for n by (simp add: descend_def)
  have "find_heic_files w dir rec =
          Some (filter (is_heic_file w) (map (\<lambda>n. descend dir [n]) (map fst ents)))"
    using False assms(1) by (simp add: find_heic_files_def directory_iterator_def one)
  moreover have "set (filter (is_heic_file w) (map (\<lambda>n. descend dir [n]) (map fst ents))) =
      {descend dir ns | ns.
                ns \<noteq> [] \<and> (rec \<or> length ns = 1) \<and>
                (\<exists>b. lookup_c (Dir ents) ns = Some (File b)) \<and>
                heic_ext (extension (name_path (last ns)))}" (is "?L = ?R")
  proof (rule set_eqI)
    fix p
    show "p \<in> ?L \<longleftrightarrow> p \<in> ?R"
    proof
      assume "p \<in> ?L"
      then obtain n where c: "n \<in> fst ` set ents" and p: "p = descend dir [n]"
        and h: "is_heic_file w (descend dir [n])" by auto
      from c have m: "[n] \<in> set (rec_names ents)" by (simp add: child_names[OF assms(2)])
      from is_heic_entry[OF assms m] h
      have "(\<exists>b. lookup_c (Dir ents) [n] = Some (File b)) \<and> heic_ext (extension (name_path (last [n])))"
        by simp
      with p show "p \<in> ?R" by (intro CollectI exI[of _ "[n]"]) simp
    next
      assume "p \<in> ?R"
      then obtain ns b where p: "p = descend dir ns" and n: "ns \<noteq> []" and l: "length ns = 1"
        and f: "lookup_c (Dir ents) ns = Some (File b)"
        and e: "heic_ext (extension (name_path (last ns)))" using False by blast
      from l obtain n where ns: "ns = [n]" by (cases ns) auto
      have m: "[n] \<in> set (rec_names ents)" using f ns by (simp add: rec_names_lookup[OF assms(2)])
      then have c: "n \<in> fst ` set ents" by (simp add: child_names[OF assms(2)])
      from is_heic_entry[OF assms m] f e ns have "is_heic_file w (descend dir [n])" by auto
      with c p ns show "p \<in> ?L" by auto
    qed
  qed
  ultimately show ?thesis by blast
qed

text \<open>The example directory, evaluated.\<close>

lemma ex_dir_eq: "ex_dir = \<lparr>has_root = True, elems = [''home'', ''photos'', []]\<rparr>"
  by (simp add: ex_dir_def absolute_def path_of_string_def path_append_def ex_world_def)

lemma ex_dir_resolve: "resolve ex_world ex_dir = Some (Dir ex_photos)"
  by (simp add: ex_dir_eq resolve_def locate_def abs_elems_def ex_world_def is_dir_at_def)

lemma ex_photos_wf: "wf_ents ex_photos"
  by (simp add: ex_photos_def valid_name_def)

lemma ex_find_recursive:
  "find_heic_files ex_world ex_dir True =
     Some [\<lparr>has_root = True, elems = [''home'', ''photos'', ''a.heic'']\<rparr>,
           \<lparr>has_root = True, elems = [''home'', ''photos'', ''b.HEIF'']\<rparr>,
           \<lparr>has_root = True, elems = [''home'', ''photos'', ''broken.heic'']\<rparr>,
           \<lparr>has_root = True, elems = [''home'', ''photos'', ''sub'', ''c.heic'']\<rparr>]"
  by code_simp

lemma ex_find_flat:
  "find_heic_files ex_world ex_dir False =
     Some [\<lparr>has_root = True, elems = [''home'', ''photos'', ''a.heic'']\<rparr>,
           \<lparr>has_root = True, elems = [''home'', ''photos'', ''b.HEIF'']\<rparr>,
           \<lparr>has_root = True, elems = [''home'', ''photos'', ''broken.heic'']\<rparr>]"
  by code_simp


theorem directory_discovery_witness:
  "resolve ex_world ex_dir = Some (Dir ex_photos) \<and> wf_ents ex_photos \<and>
   set [\<lparr>has_root = True, elems = [''home'', ''photos'', ''a.heic'']\<rparr>,
        \<lparr>has_root = True, elems = [''home'', ''photos'', ''b.HEIF'']\<rparr>,
        \<lparr>has_root = True, elems = [''home'', ''photos'', ''broken.heic'']\<rparr>,
        \<lparr>has_root = True, elems = [''home'', ''photos'', ''sub'', ''c.heic'']\<rparr>] =
     {descend ex_dir ns | ns.
        ns \<noteq> [] \<and> (True \<or> length ns = 1) \<and>
        (\<exists>b. lookup_c (Dir ex_photos) ns = Some (File b)) \<and>
        heic_ext (extension (name_path (last ns)))} \<and>
   set [\<lparr>has_root = True, elems = [''home'', ''photos'', ''a.heic'']\<rparr>,
        \<lparr>has_root = True, elems = [''home'', ''photos'', ''b.HEIF'']\<rparr>,
        \<lparr>has_root = True, elems = [''home'', ''photos'', ''broken.heic'']\<rparr>] =
     {descend ex_dir ns | ns.
        ns \<noteq> [] \<and> (False \<or> length ns = 1) \<and>
        (\<exists>b. lookup_c (Dir ex_photos) ns = Some (File b)) \<and>
        heic_ext (extension (name_path (last ns)))}"
proof -
  note d = directory_discovery[OF ex_dir_resolve ex_photos_wf]
  from d[of True] ex_find_recursive d[of False] ex_find_flat ex_dir_resolve ex_photos_wf
  show ?thesis by (simp del: set_simps)
qed

subsection \<open>Converting one file: writing the destination\<close>

text \<open>The conversion by its stages.\<close>

lemma convert_stages:
  "convert_heic_to_webp L w input_path output_path opts =
     (case decode_stage L w input_path of
        Inl ev \<Rightarrow> (w, (if verbose opts then [Decoding input_path] else []) @ [ev], Returned False)
      | Inr img \<Rightarrow>
          if encoded L opts img = [] then
            (w, progress L opts input_path output_path img @ [Failed_encode], Returned False)
          else
            (case ofstream_open w output_path of
               None \<Rightarrow>
                 (w, progress L opts input_path output_path img @ [Failed_create output_path],
                  Returned False)
             | Some w1 \<Rightarrow>
                 if verbose opts then
                   (case file_size (ofstream_write w1 output_path (encoded L opts img)) input_path of
                      None \<Rightarrow>
                        (ofstream_write w1 output_path (encoded L opts img),
                         progress L opts input_path output_path img, Threw)
                    | Some input_size \<Rightarrow>
                        (ofstream_write w1 output_path (encoded L opts img),
                         progress L opts input_path output_path img @
                           [Size_report input_size (length (encoded L opts img))],
                         Returned True))
                 else (ofstream_write w1 output_path (encoded L opts img), [], Returned True)))"
  unfolding convert_heic_to_webp_def decode_stage_def encoded_def progress_def
  by (simp add: Let_def split: option.splits prod.splits)


lemma set_c_nonempty: "set_c r ns x = Some r' \<Longrightarrow> ns \<noteq> []"
  by (cases ns) (cases r, simp_all)

lemma set_c_lookup: "set_c r ns x = Some r' \<Longrightarrow> lookup_c r' ns = Some x"
  by (induction r ns x arbitrary: r' rule: set_c.induct)
     (auto simp: AList.update_conv' split: option.splits)

lemma set_c_again:
  "set_c r ns x = Some r1 \<Longrightarrow> set_c r1 ns y = set_c r ns y"
proof (induction r ns x arbitrary: r1 rule: set_c.induct)
  case (1 ents e x)
  then have "r1 = Dir (AList.update e x ents)" by simp
  then show ?case by simp
next
  case (2 ents e e' es x)
  from "2.prems" obtain c c' where c: "map_of ents e = Some c"
    and s: "set_c c (e' # es) x = Some c'" and r1: "r1 = Dir (AList.update e c' ents)"
    by (auto split: option.splits)
  have ih: "set_c c' (e' # es) y = set_c c (e' # es) y" by (rule "2.IH"[OF c s])
  have m: "map_of (AList.update e c' ents) e = Some c'" by (simp add: AList.update_conv')
  show ?case unfolding r1 using c m ih by (simp split: option.splits)
qed simp_all

lemma set_c_same:
  "lookup_c r ns = Some x \<Longrightarrow> ns \<noteq> [] \<Longrightarrow> (case r of Dir ents \<Rightarrow> True | File b \<Rightarrow> False) \<Longrightarrow>
   set_c r ns x = Some r"
proof (induction r ns x rule: set_c.induct)
  case (1 ents e x)
  then show ?case by (auto simp: AList.update_triv split: option.splits)
next
  case (2 ents e e' es x)
  from "2.prems"(1) obtain c where c: "map_of ents e = Some c" and l: "lookup_c c (e' # es) = Some x"
    by (auto split: option.splits)
  from l have "case c of Dir ents \<Rightarrow> True | File b \<Rightarrow> False" by (cases c) simp_all
  with "2.IH"[OF c l] have "set_c c (e' # es) x = Some c" by simp
  then show ?case using c by (simp add: AList.update_triv)
qed simp_all

lemma set_c_dirs:
  "set_c r ns (File x) = Some r' \<Longrightarrow> \<not> is_dir_at r ns \<Longrightarrow> is_dir_at r' qs = is_dir_at r qs"
proof (induction r ns "File x" arbitrary: r' qs rule: set_c.induct)
  case (1 ents e)
  then have r': "r' = Dir (AList.update e (File x) ents)" by simp
  have nd: "\<not> (case map_of ents e of Some (Dir sub) \<Rightarrow> True | _ \<Rightarrow> False)"
    using "1.prems"(2) by (simp add: is_dir_at_def split: option.splits)
  show ?case
  proof (cases qs)
    case Nil
    then show ?thesis using r' by (simp add: is_dir_at_def)
  next
    case (Cons q qs')
    show ?thesis
    proof (cases "q = e")
      case True
      then show ?thesis using nd Cons r'
        by (cases qs') (auto simp: is_dir_at_def AList.update_conv' split: option.splits node.splits)
    next
      case False
      then show ?thesis using Cons r' by (simp add: is_dir_at_def AList.update_conv')
    qed
  qed
next
  case (2 ents e e' es)
  from "2.prems"(1) obtain c c' where c: "map_of ents e = Some c"
    and s: "set_c c (e' # es) (File x) = Some c'" and r': "r' = Dir (AList.update e c' ents)"
    by (auto split: option.splits)
  have nd: "\<not> is_dir_at c (e' # es)" using "2.prems"(2) c by (simp add: is_dir_at_def)
  show ?case
  proof (cases qs)
    case Nil
    then show ?thesis using r' by (simp add: is_dir_at_def)
  next
    case (Cons q qs')
    show ?thesis
    proof (cases "q = e")
      case True
      have "is_dir_at c' qs' = is_dir_at c qs'" by (rule "2.hyps"[OF c s nd])
      then show ?thesis using True Cons c r' by (simp add: is_dir_at_def AList.update_conv')
    next
      case False
      then show ?thesis using Cons r' by (simp add: is_dir_at_def AList.update_conv')
    qed
  qed
qed simp_all

lemma canon_same_dirs:
  "(\<And>qs. is_dir_at r' qs = is_dir_at r qs) \<Longrightarrow> canon r' acc es = canon r acc es"
  by (induction es arbitrary: acc) simp_all


lemma set_c_Dir: "set_c r ns x = Some r' \<Longrightarrow> \<exists>ents. r' = Dir ents"
  by (induction r ns x rule: set_c.induct) (auto split: option.splits)

lemma set_c_any:
  "set_c r ns x = Some r1 \<Longrightarrow> \<exists>r2. set_c r ns y = Some r2"
proof (induction r ns x arbitrary: r1 rule: set_c.induct)
  case (1 ents e x)
  then show ?case by simp
next
  case (2 ents e e' es x)
  from "2.prems" obtain c c' where c: "map_of ents e = Some c"
    and s: "set_c c (e' # es) x = Some c'" by (auto split: option.splits)
  from "2.IH"[OF c s] obtain c2 where "set_c c (e' # es) y = Some c2" by blast
  then show ?case using c by simp
qed simp_all

lemma locate_same_dirs:
  "(\<And>qs. is_dir_at r' qs = is_dir_at (root w) qs) \<Longrightarrow> locate (w\<lparr>root := r'\<rparr>) p = locate w p"
  using canon_same_dirs[of r' "root w"] by (simp add: locate_def abs_elems_def)

lemma open_then_write:
  assumes "ofstream_open w p = Some wa"
  shows "\<exists>ns r2. locate w p = Some ns \<and> \<not> is_dir_at (root w) ns \<and>
           set_c (root w) ns (File (stored w p data)) = Some r2 \<and>
           ofstream_write wa p data = w\<lparr>root := r2\<rparr>"
proof -
  from assms obtain ns ra where ns: "locate w p = Some ns" and nd: "\<not> is_dir_at (root w) ns"
    and ra: "set_c (root w) ns (File []) = Some ra" and wa: "wa = w\<lparr>root := ra\<rparr>"
    by (auto simp: ofstream_open_def split: option.splits if_splits)
  from set_c_any[OF ra] obtain r2 where r2: "set_c (root w) ns (File (stored w p data)) = Some r2"
    by blast
  have "locate wa p = Some ns"
    unfolding wa using locate_same_dirs[of ra w p] set_c_dirs[OF ra nd] ns by simp
  moreover have "set_c ra ns (File (stored w p data)) = Some r2"
    using set_c_again[OF ra] r2 by simp
  ultimately have "ofstream_write wa p data = w\<lparr>root := r2\<rparr>"
    by (simp add: ofstream_write_def wa stored_def)
  with ns nd r2 show ?thesis by blast
qed

lemma written_world:
  assumes "locate w p = Some ns" and "\<not> is_dir_at (root w) ns"
    and "set_c (root w) ns (File bs) = Some r2"
  shows "locate (w\<lparr>root := r2\<rparr>) p = Some ns" and "read_file (w\<lparr>root := r2\<rparr>) p = Some bs"
    and "\<not> is_dir_at r2 ns"
proof -
  show l: "locate (w\<lparr>root := r2\<rparr>) p = Some ns"
    using locate_same_dirs[of r2 w p] set_c_dirs[OF assms(3,2)] assms(1) by simp
  show "read_file (w\<lparr>root := r2\<rparr>) p = Some bs"
    using l set_c_lookup[OF assms(3)] by (simp add: read_file_def resolve_def)
  show "\<not> is_dir_at r2 ns" using set_c_lookup[OF assms(3)] by (simp add: is_dir_at_def)
qed

lemma reopen_rewrite:
  assumes "locate w p = Some ns" and "\<not> is_dir_at (root w) ns"
    and "set_c (root w) ns (File (stored w p data)) = Some r2"
  shows "\<exists>wb. ofstream_open (w\<lparr>root := r2\<rparr>) p = Some wb \<and>
           ofstream_write wb p data = w\<lparr>root := r2\<rparr>"
proof -
  let ?w1 = "w\<lparr>root := r2\<rparr>"
  note ww = written_world[OF assms]
  from set_c_any[OF assms(3)] set_c_again[OF assms(3)] obtain r3
    where r3: "set_c r2 ns (File []) = Some r3" by metis
  have o: "ofstream_open ?w1 p = Some (?w1\<lparr>root := r3\<rparr>)"
    using ww(1,3) r3 by (simp add: ofstream_open_def)
  have l3: "locate (?w1\<lparr>root := r3\<rparr>) p = Some ns"
    using written_world(1)[of ?w1 p ns "[]" r3] ww(1,3) r3 by simp
  obtain ents where d: "r2 = Dir ents" using set_c_Dir[OF assms(3)] by blast
  have "set_c r2 ns (File (stored w p data)) = Some r2"
    using set_c_same[of r2 ns "File (stored w p data)"] set_c_lookup[OF assms(3)]
      set_c_nonempty[OF assms(3)] d by simp
  then have "set_c r3 ns (File (stored w p data)) = Some r2"
    using set_c_again[OF r3] by simp
  then have "ofstream_write (?w1\<lparr>root := r3\<rparr>) p data = ?w1"
    using l3 by (simp add: ofstream_write_def stored_def)
  with o show ?thesis by blast
qed


lemma decode_stage_read:
  "read_file w' p = read_file w p \<Longrightarrow> decode_stage L w' p = decode_stage L w p"
  by (simp add: decode_stage_def)

lemma convert_success:
  assumes "convert_heic_to_webp L w inp out opts = (w1, lg, Returned True)"
  shows "\<exists>img wa. decode_stage L w inp = Inr img \<and> encoded L opts img \<noteq> [] \<and>
           ofstream_open w out = Some wa \<and> w1 = ofstream_write wa out (encoded L opts img) \<and>
           (if verbose opts
            then \<exists>n. file_size w1 inp = Some n \<and>
                     lg = progress L opts inp out img @ [Size_report n (length (encoded L opts img))]
            else lg = [])"
  using assms unfolding convert_stages
  by (auto split: sum.splits if_splits option.splits)

text \<open>
  Claim C8. The destination path is a function of the source path and the output
  directory alone, so a second conversion of the same source under the same options
  goes to the same path. When the first conversion succeeded and left the source as it
  was, the destination is then a regular file holding what the stream stored of the
  encoded bytes, and the second conversion succeeds as well, prints the same lines and
  leaves the file system exactly as the first one did: the destination is opened and
  truncated again, it is neither refused for being there nor appended to.
\<close>

theorem reconversion_overwrites:
  assumes "out = get_output_path inp (output_dir opts)"
    and "convert_heic_to_webp L w inp out opts = (w1, lg1, Returned True)"
    and "read_file w1 inp = read_file w inp"
  shows "is_regular_file w1 out \<and>
         convert_heic_to_webp L w1 inp out opts = (w1, lg1, Returned True) \<and>
         (\<exists>img. decode_stage L w inp = Inr img \<and>
            read_file w1 out = Some (stored w out (encoded L opts img))) \<and>
         get_output_path inp (output_dir (opts\<lparr>input := i, quality := q,
                                               recursive := r, verbose := v\<rparr>)) = out"
proof -
  from convert_success[OF assms(2)] obtain img wa where
    d: "decode_stage L w inp = Inr img" and e: "encoded L opts img \<noteq> []"
    and o: "ofstream_open w out = Some wa"
    and w1: "w1 = ofstream_write wa out (encoded L opts img)"
    and lg: "if verbose opts
            then \<exists>n. file_size w1 inp = Some n \<and>
                     lg1 = progress L opts inp out img @ [Size_report n (length (encoded L opts img))]
            else lg1 = []"
    by blast
  from open_then_write[OF o, of "encoded L opts img"] w1 obtain ns r2 where
    ns: "locate w out = Some ns" and nd: "\<not> is_dir_at (root w) ns"
    and r2: "set_c (root w) ns (File (stored w out (encoded L opts img))) = Some r2"
    and w1': "w1 = w\<lparr>root := r2\<rparr>" by auto
  note ww = written_world[OF ns nd r2, folded w1']
  have reg: "is_regular_file w1 out"
    using ww(2) by (auto simp: is_regular_file_def read_file_def split: option.splits node.splits)
  from reopen_rewrite[OF ns nd r2] obtain wb where
    ob: "ofstream_open w1 out = Some wb" and wr: "ofstream_write wb out (encoded L opts img) = w1"
    unfolding w1' by blast
  have d1: "decode_stage L w1 inp = Inr img" using decode_stage_read[OF assms(3), of L] d by simp
  have again: "convert_heic_to_webp L w1 inp out opts = (w1, lg1, Returned True)"
  proof (cases "verbose opts")
    case True
    with lg obtain n where "file_size w1 inp = Some n"
      "lg1 = progress L opts inp out img @ [Size_report n (length (encoded L opts img))]" by auto
    then show ?thesis using True d1 e ob wr by (simp add: convert_stages)
  next
    case False
    with lg have "lg1 = []" by simp
    then show ?thesis using False d1 e ob wr by (simp add: convert_stages)
  qed
  have "get_output_path inp (output_dir (opts\<lparr>input := i, quality := q,
                                               recursive := r, verbose := v\<rparr>)) = out"
    using assms(1) by simp
  with reg again d ww(2) show ?thesis by blast
qed


theorem reconversion_overwrites_witness:
  "convert_heic_to_webp ex_codec ex_world ex_a (get_output_path ex_a []) default_options =
     (ex_converted, [], Returned True) \<and>
   read_file ex_world (get_output_path ex_a []) = None \<and>
   read_file ex_converted (get_output_path ex_a []) = Some [7, 1] \<and>
   convert_heic_to_webp ex_codec ex_converted ex_a (get_output_path ex_a []) default_options =
     (ex_converted, [], Returned True)"
proof -
  let ?out = "get_output_path ex_a []"
  have s: "snd (convert_heic_to_webp ex_codec ex_world ex_a ?out default_options) = ([], Returned True)"
    by code_simp
  have c: "convert_heic_to_webp ex_codec ex_world ex_a ?out default_options =
             (ex_converted, [], Returned True)"
    using s unfolding ex_converted_def by (metis prod.collapse)
  have o: "?out = get_output_path ex_a (output_dir default_options)"
    by (simp add: default_options_def)
  have r: "read_file ex_converted ex_a = read_file ex_world ex_a"
    unfolding ex_converted_def by code_simp
  have n: "read_file ex_world ?out = None" by code_simp
  have b: "read_file ex_converted ?out = Some [7, 1]" unfolding ex_converted_def by code_simp
  from reconversion_overwrites[OF o c r] c n b show ?thesis by simp
qed

lemma open_failure_reported:
  assumes "decode_stage L w inp = Inr img" and "encoded L opts img \<noteq> []"
    and "ofstream_open w out = None"
  shows "convert_heic_to_webp L w inp out opts =
           (w, progress L opts inp out img @ [Failed_create out], Returned False)"
  using assms by (simp add: convert_stages)

text \<open>
  Claim C4 says that a conversion whose write fails is reported as a failure, also when
  the failure comes after the stream was opened. The code checks the stream once,
  after opening it (the lemma above), and never after \<open>write\<close> or \<open>close\<close>. On a device
  that stores one byte of the two that \<open>a.heic\<close> encodes to, the conversion returns
  \<open>true\<close>, the truncated \<open>a.webp\<close> stays, and \<open>main\<close> counts one success and exits
  with 0.
\<close>

theorem short_write_counted_as_success:
  "write_limit ex_full (get_output_path ex_a []) = Some 1 \<and>
   decode_stage ex_codec ex_full ex_a = Inr [1] \<and>
   encoded ex_codec default_options [1] = [7, 1] \<and>
   snd (convert_heic_to_webp ex_codec ex_full ex_a (get_output_path ex_a []) default_options) =
     ([], Returned True) \<and>
   read_file (fst (convert_heic_to_webp ex_codec ex_full ex_a (get_output_path ex_a [])
                     default_options)) (get_output_path ex_a []) = Some [7] \<and>
   snd (main ex_codec ex_full [''prog'', ''photos/a.heic'']) =
     ([Converted ''a.heic'' ''a.webp'', Summary 1 1], Exit 0)"
proof -
  have "write_limit ex_full (get_output_path ex_a []) = Some 1" by (simp add: ex_full_def)
  moreover have "decode_stage ex_codec ex_full ex_a = Inr [1]" by code_simp
  moreover have "encoded ex_codec default_options [1] = [7, 1]" by code_simp
  moreover have "snd (convert_heic_to_webp ex_codec ex_full ex_a (get_output_path ex_a []) default_options) =
     ([], Returned True)" by code_simp
  moreover have "read_file (fst (convert_heic_to_webp ex_codec ex_full ex_a (get_output_path ex_a [])
                     default_options)) (get_output_path ex_a []) = Some [7]" by code_simp
  moreover have "snd (main ex_codec ex_full [''prog'', ''photos/a.heic'']) =
     ([Converted ''a.heic'' ''a.webp'', Summary 1 1], Exit 0)" by code_simp
  ultimately show ?thesis by simp
qed

text \<open>
  In this file system a conversion that decoded its source finds it again as a regular
  file after writing, so \<open>fs::file_size\<close> does not throw.
\<close>

lemma set_c_files:
  "set_c r ns (File x) = Some r' \<Longrightarrow> \<not> is_dir_at r ns \<Longrightarrow>
   lookup_c r ms = Some (File b) \<Longrightarrow> \<exists>b'. lookup_c r' ms = Some (File b')"
proof (induction r ns "File x" arbitrary: r' ms rule: set_c.induct)
  case (1 ents e)
  then have r': "r' = Dir (AList.update e (File x) ents)" by simp
  show ?case
  proof (cases ms)
    case Nil
    then show ?thesis using "1.prems"(3) by simp
  next
    case (Cons m ms')
    show ?thesis
    proof (cases "m = e")
      case True
      have "ms' = []"
      proof (rule ccontr)
        assume "ms' \<noteq> []"
        then obtain k ks where ks: "ms' = k # ks" by (cases ms') auto
        from "1.prems"(3) Cons True ks obtain sub where "map_of ents e = Some (Dir sub)"
          by (auto split: option.splits node.splits elim: lookup_c.elims)
        then show False using "1.prems"(2) by (simp add: is_dir_at_def)
      qed
      then show ?thesis using Cons True r' by (simp add: AList.update_conv')
    next
      case False
      then show ?thesis using Cons r' "1.prems"(3) by (simp add: AList.update_conv')
    qed
  qed
next
  case (2 ents e e' es)
  from "2.prems"(1) obtain c c' where c: "map_of ents e = Some c"
    and s: "set_c c (e' # es) (File x) = Some c'" and r': "r' = Dir (AList.update e c' ents)"
    by (auto split: option.splits)
  have nd: "\<not> is_dir_at c (e' # es)" using "2.prems"(2) c by (simp add: is_dir_at_def)
  show ?case
  proof (cases ms)
    case Nil
    then show ?thesis using "2.prems"(3) by simp
  next
    case (Cons m ms')
    show ?thesis
    proof (cases "m = e")
      case True
      have "lookup_c c ms' = Some (File b)" using "2.prems"(3) Cons True c by simp
      from "2.hyps"[OF c s nd this] show ?thesis using True Cons r' by (simp add: AList.update_conv')
    next
      case False
      then show ?thesis using Cons r' "2.prems"(3) by (simp add: AList.update_conv')
    qed
  qed
qed simp_all

lemma written_keeps_files:
  assumes "locate w p = Some ns" and "\<not> is_dir_at (root w) ns"
    and "set_c (root w) ns (File bs) = Some r2" and "read_file w q = Some b"
  shows "\<exists>b'. read_file (w\<lparr>root := r2\<rparr>) q = Some b'"
proof -
  from assms(4) obtain ms where ms: "locate w q = Some ms" and f: "lookup_c (root w) ms = Some (File b)"
    by (auto simp: read_file_def resolve_def split: option.splits node.splits)
  have "locate (w\<lparr>root := r2\<rparr>) q = Some ms"
    using locate_same_dirs[of r2 w q] set_c_dirs[OF assms(3,2)] ms by simp
  moreover from set_c_files[OF assms(3,2) f] obtain b' where "lookup_c r2 ms = Some (File b')" by blast
  ultimately show ?thesis by (simp add: read_file_def resolve_def)
qed

lemma convert_never_throws:
  "convert_heic_to_webp L w inp out opts \<noteq> (w', l, Threw)"
proof
  assume t: "convert_heic_to_webp L w inp out opts = (w', l, Threw)"
  then obtain img wa where d: "decode_stage L w inp = Inr img"
    and o: "ofstream_open w out = Some wa"
    and fs: "file_size (ofstream_write wa out (encoded L opts img)) inp = None"
    unfolding convert_stages by (auto split: sum.splits if_splits option.splits)
  from d obtain b where b: "read_file w inp = Some b"
    by (auto simp: decode_stage_def split: option.splits)
  from open_then_write[OF o, of "encoded L opts img"] obtain ns r2 where
    ns: "locate w out = Some ns" and nd: "\<not> is_dir_at (root w) ns"
    and r2: "set_c (root w) ns (File (stored w out (encoded L opts img))) = Some r2"
    and w1: "ofstream_write wa out (encoded L opts img) = w\<lparr>root := r2\<rparr>" by blast
  from written_keeps_files[OF ns nd r2 b] fs show False by (simp add: w1 file_size_def)
qed


subsection \<open>The batch loop\<close>

lemma count_all_but_one:
  assumes "k < n"
  shows "length (filter (\<lambda>r. r = Returned True) ((replicate n (Returned True))[k := Returned False])) = n - 1"
    and "length (filter (\<lambda>r. r = Returned False) ((replicate n (Returned True))[k := Returned False])) = 1"
proof -
  have e: "(replicate n (Returned True))[k := Returned False] =
        replicate k (Returned True) @ Returned False # replicate (n - Suc k) (Returned True)"
    using assms by (simp add: upd_conv_take_nth_drop min_def)
  show "length (filter (\<lambda>r. r = Returned True) ((replicate n (Returned True))[k := Returned False])) = n - 1"
    unfolding e using assms by simp
  show "length (filter (\<lambda>r. r = Returned False) ((replicate n (Returned True))[k := Returned False])) = 1"
    unfolding e by simp
qed

lemma batch_loop_trace:
  assumes "Threw \<notin> set (results (attempts L opts (bworld st) files))"
  shows "\<exists>st'. batch_loop L opts files st = (st', False) \<and>
           map fst (attempts L opts (bworld st) files) = files \<and>
           success_count st' = success_count st +
             int (length (filter (\<lambda>r. r = Returned True) (results (attempts L opts (bworld st) files)))) \<and>
           error_count st' = error_count st +
             int (length (filter (\<lambda>r. r = Returned False) (results (attempts L opts (bworld st) files)))) \<and>
           blog st' = blog st @ concat (map (\<lambda>(f, l, r). l @
              [if r = Returned True
               then (if verbose opts then Done
                     else Converted (filename f) (filename (get_output_path f (output_dir opts))))
               else Failed (filename f)]) (attempts L opts (bworld st) files))"
  using assms
proof (induction files arbitrary: st)
  case Nil
  then show ?case by (simp add: results_def)
next
  case (Cons fl rest)
  obtain w' lg r where c: "convert_heic_to_webp L (bworld st) fl
      (get_output_path fl (output_dir opts)) opts = (w', lg, r)" by (metis prod_cases3)
  show ?case
  proof (cases r)
    case Threw
    then show ?thesis using Cons.prems c by (simp add: results_def)
  next
    case (Returned ok)
    have a: "attempts L opts (bworld st) (fl # rest) =
               (fl, lg, Returned ok) # attempts L opts w' rest"
      using c Returned by simp
    show ?thesis
    proof (cases ok)
      case True
      let ?st1 = "st\<lparr>bworld := w',
                   blog := blog st @ lg @
                     [if verbose opts then Done
                      else Converted (filename fl) (filename (get_output_path fl (output_dir opts)))],
                   success_count := success_count st + 1\<rparr>"
      have b: "batch_loop L opts (fl # rest) st = batch_loop L opts rest ?st1"
        using c Returned True by (simp add: Let_def)
      have "Threw \<notin> set (results (attempts L opts (bworld ?st1) rest))"
        using Cons.prems[unfolded a] by (simp add: results_def)
      from Cons.IH[OF this] show ?thesis
        unfolding b a using True by (auto simp: results_def simp del: attempts.simps)
    next
      case False
      let ?st1 = "st\<lparr>bworld := w',
                   blog := blog st @ lg @ [Failed (filename fl)],
                   error_count := error_count st + 1\<rparr>"
      have b: "batch_loop L opts (fl # rest) st = batch_loop L opts rest ?st1"
        using c Returned False by (simp add: Let_def)
      have "Threw \<notin> set (results (attempts L opts (bworld ?st1) rest))"
        using Cons.prems[unfolded a] by (simp add: results_def)
      from Cons.IH[OF this] show ?thesis
        unfolding b a using False by (auto simp: results_def simp del: attempts.simps)
    qed
  qed
qed


lemma decode_stage_events:
  "decode_stage L w inp = Inl ev \<Longrightarrow> ev = Failed_read \<or> ev = Failed_handle \<or> ev = Failed_decode"
  unfolding decode_stage_def by (auto split: option.splits)

lemma convert_log_filters:
  assumes "convert_heic_to_webp L w inp out opts = (w', l, r)"
  shows "filter is_report l = [] \<and>
         filter is_decoding l = (if verbose opts then [Decoding inp] else [])"
proof (cases "decode_stage L w inp")
  case (Inl ev)
  from decode_stage_events[OF Inl] assms show ?thesis
    unfolding convert_stages Inl by (auto simp: is_report_def is_decoding_def)
next
  case (Inr img)
  from assms show ?thesis
    unfolding convert_stages Inr
    by (auto simp: progress_def is_report_def is_decoding_def split: if_splits option.splits)
qed

lemma attempts_log_filters:
  "(f, l, r) \<in> set (attempts L opts w fs) \<Longrightarrow>
     filter is_report l = [] \<and>
     filter is_decoding l = (if verbose opts then [Decoding f] else [])"
proof (induction fs arbitrary: w)
  case Nil
  then show ?case by simp
next
  case (Cons g gs)
  obtain w' lg c where c: "convert_heic_to_webp L w g (get_output_path g (output_dir opts)) opts = (w', lg, c)"
    by (metis prod_cases3)
  note h = convert_log_filters[OF c]
  show ?case
  proof (cases c)
    case Threw
    then show ?thesis using Cons.prems c h by auto
  next
    case (Returned ok)
    then show ?thesis using Cons.prems Cons.IH[of w'] c h by auto
  qed
qed

lemma is_report_report: "is_report (report opts f ok) \<and> \<not> is_decoding (report opts f ok)"
  by (simp add: report_def is_report_def is_decoding_def)

lemma trace_reports:
  assumes "\<And>f l r. (f, l, r) \<in> set tr \<Longrightarrow>
             filter is_report l = [] \<and>
             filter is_decoding l = (if verbose opts then [Decoding f] else [])"
  shows "filter is_report (concat (map (\<lambda>(f, l, r). l @ [report opts f (r = Returned True)]) tr)) =
           map (\<lambda>(f, l, r). report opts f (r = Returned True)) tr \<and>
         filter is_decoding (concat (map (\<lambda>(f, l, r). l @ [report opts f (r = Returned True)]) tr)) =
           (if verbose opts then map Decoding (map fst tr) else [])"
  using assms
proof (induction tr)
  case Nil
  then show ?case by simp
next
  case (Cons t tr)
  obtain f l r where t: "t = (f, l, r)" by (metis prod_cases3)
  have h: "filter is_report l = [] \<and>
           filter is_decoding l = (if verbose opts then [Decoding f] else [])"
    using Cons.prems[of f l r] t by simp
  have p: "filter is_report l' = [] \<and>
           filter is_decoding l' = (if verbose opts then [Decoding f'] else [])"
    if "(f', l', r') \<in> set tr" for f' l' r'
    using Cons.prems[of f' l' r'] that by simp
  note ih = Cons.IH[OF p]
  show ?case using h ih is_report_report[of opts f "r = Returned True"] by (simp add: t)
qed

lemma trace_index:
  assumes "map fst tr = files"
    and "results tr = (replicate (length files) (Returned True))[k := Returned False]"
  shows "map (\<lambda>(f, l, r). report opts f (r = Returned True)) tr =
         map (\<lambda>j. if j = k then Failed (filename (files ! j))
                  else if verbose opts then Done
                  else Converted (filename (files ! j))
                         (filename (get_output_path (files ! j) (output_dir opts))))
           [0..<length files]"
proof (rule nth_equalityI)
  have len: "length tr = length files" using assms(1) by (metis length_map)
  show "length (map (\<lambda>(f, l, r). report opts f (r = Returned True)) tr) =
        length (map (\<lambda>j. if j = k then Failed (filename (files ! j))
                  else if verbose opts then Done
                  else Converted (filename (files ! j))
                         (filename (get_output_path (files ! j) (output_dir opts))))
           [0..<length files])"
    using len by simp
  fix i assume "i < length (map (\<lambda>(f, l, r). report opts f (r = Returned True)) tr)"
  then have i: "i < length files" using len by simp
  obtain f l r where t: "tr ! i = (f, l, r)" by (metis prod_cases3)
  have f: "f = files ! i" using assms(1) i len t by (metis fst_conv nth_map)
  have "results tr ! i = r" using i len t by (simp add: results_def)
  then have e: "r = (replicate (length files) (Returned True))[k := Returned False] ! i"
    by (simp add: assms(2))
  have r: "r = (if i = k then Returned False else Returned True)"
    unfolding e using i by (cases "i = k") simp_all
  show "map (\<lambda>(f, l, r). report opts f (r = Returned True)) tr ! i =
        map (\<lambda>j. if j = k then Failed (filename (files ! j))
                  else if verbose opts then Done
                  else Converted (filename (files ! j))
                         (filename (get_output_path (files ! j) (output_dir opts))))
           [0..<length files] ! i"
    using i len by (simp add: t f r report_def)
qed

text \<open>
  Claim C1 says that every result is attributed to its source path. The program keeps
  no results; what it reports of a file is one printed line, and unless it runs
  verbose that line carries the file's name only. Of two pictures of the same name in
  two directories, the one listed first fails and the other is converted: whichever of
  the two lies in \<open>x\<close>, the run prints the same lines, so they do not tell which source
  path failed.
\<close>

theorem same_name_reports:
  "parse_args [''prog'', ''t'', ''-r''] = ([], Inr ex_opts) \<and>
   absolute (ex_twins True) (path_of_string ''t'') = ex_t \<and>
   absolute (ex_twins False) (path_of_string ''t'') = ex_t \<and>
   filename ex_x = filename ex_y \<and>
   find_heic_files (ex_twins True) ex_t True =
       Some [ex_x, ex_y] \<and>
   find_heic_files (ex_twins False) ex_t True =
       Some [ex_y, ex_x] \<and>
   snd (convert_heic_to_webp ex_codec (ex_twins True) ex_x (get_output_path ex_x [])
          ex_opts) =
     ([Failed_read], Returned False) \<and>
   snd (convert_heic_to_webp ex_codec (ex_twins True) ex_y (get_output_path ex_y [])
          ex_opts) =
     ([], Returned True) \<and>
   snd (convert_heic_to_webp ex_codec (ex_twins False) ex_y (get_output_path ex_y [])
          ex_opts) =
     ([Failed_read], Returned False) \<and>
   snd (convert_heic_to_webp ex_codec (ex_twins False) ex_x (get_output_path ex_x [])
          ex_opts) =
     ([], Returned True) \<and>
   snd (main ex_codec (ex_twins True) [''prog'', ''t'', ''-r'']) =
     ([Found_files 2, Failed_read, Failed ''a.heic'', Converted ''a.heic'' ''a.webp'', Summary 1 2],
      Exit 1) \<and>
   snd (main ex_codec (ex_twins False) [''prog'', ''t'', ''-r'']) =
     ([Found_files 2, Failed_read, Failed ''a.heic'', Converted ''a.heic'' ''a.webp'', Summary 1 2],
      Exit 1)"
proof -
  have n: "filename ex_x = filename ex_y" by code_simp
  have p: "parse_args [''prog'', ''t'', ''-r''] = ([], Inr ex_opts)" by code_simp
  have t: "absolute (ex_twins True) (path_of_string ''t'') = ex_t"
    "absolute (ex_twins False) (path_of_string ''t'') = ex_t" by code_simp+
  have d1: "find_heic_files (ex_twins True) ex_t True =
       Some [ex_x, ex_y]" by code_simp
  have d2: "find_heic_files (ex_twins False) ex_t True =
       Some [ex_y, ex_x]" by code_simp
  have c1: "snd (convert_heic_to_webp ex_codec (ex_twins True) ex_x (get_output_path ex_x [])
          ex_opts) =
     ([Failed_read], Returned False)" by code_simp
  have c2: "snd (convert_heic_to_webp ex_codec (ex_twins True) ex_y (get_output_path ex_y [])
          ex_opts) =
     ([], Returned True)" by code_simp
  have c3: "snd (convert_heic_to_webp ex_codec (ex_twins False) ex_y (get_output_path ex_y [])
          ex_opts) =
     ([Failed_read], Returned False)" by code_simp
  have c4: "snd (convert_heic_to_webp ex_codec (ex_twins False) ex_x (get_output_path ex_x [])
          ex_opts) =
     ([], Returned True)" by code_simp
  have m1: "snd (main ex_codec (ex_twins True) [''prog'', ''t'', ''-r'']) =
     ([Found_files 2, Failed_read, Failed ''a.heic'', Converted ''a.heic'' ''a.webp'', Summary 1 2],
      Exit 1)" by code_simp
  have m2: "snd (main ex_codec (ex_twins False) [''prog'', ''t'', ''-r'']) =
     ([Found_files 2, Failed_read, Failed ''a.heic'', Converted ''a.heic'' ''a.webp'', Summary 1 2],
      Exit 1)" by code_simp
  from p t n d1 d2 c1 c2 c3 c4 m1 m2 show ?thesis by (simp only: simp_thms)
qed

text \<open>
  Claim C1, as the code has it. Take a batch of \<open>N\<close> files (fewer than \<open>2^31\<close>) in which
  the conversion of the file at position \<open>k\<close> fails and every other conversion succeeds,
  each in the file system its predecessors left. Then the loop runs to its end; the
  counters end at \<open>N - 1\<close> successes and one failure; after what the loop printed, the
  summary line reads \<open>N - 1\<close> of \<open>N\<close>, and the exit code is 1. The loop printed, file
  by file in the order of the batch, the lines of that file's conversion followed by
  one report. The reports are \<open>N\<close>, the one at position \<open>j\<close> for the file at position
  \<open>j\<close>: \<open>Failed\<close> with the file's name at \<open>k\<close>, and elsewhere the file's name with the
  name of its destination, or \<open>Done\<close> when verbose. The line that names a source
  path, the first of a conversion, is printed only when verbose: then once for each
  file, in the order of the batch.
\<close>

theorem failure_isolation:
  assumes "length files < 2147483648"
    and "k < length files"
    and "results (attempts L opts w files) = (replicate (length files) (Returned True))[k := Returned False]"
  shows "\<exists>st out. batch_loop L opts files \<lparr>bworld = w, blog = lg, success_count = 0, error_count = 0\<rparr> = (st, False) \<and>
           success_count st = int (length files) - 1 \<and> error_count st = 1 \<and>
           blog st = lg @ out \<and>
           run_batch L opts w lg files =
             (bworld st, lg @ out @ [Summary (int (length files) - 1) (length files)], Exit 1) \<and>
           filter is_report out =
             map (\<lambda>j. if j = k then Failed (filename (files ! j))
                      else if verbose opts then Done
                      else Converted (filename (files ! j))
                             (filename (get_output_path (files ! j) (output_dir opts))))
               [0..<length files] \<and>
           filter is_decoding out = (if verbose opts then map Decoding files else []) \<and>
           out = concat (map (\<lambda>(f, l, r). l @
              [if r = Returned True
               then (if verbose opts then Done
                     else Converted (filename f) (filename (get_output_path f (output_dir opts))))
               else Failed (filename f)]) (attempts L opts w files)) \<and>
           map fst (attempts L opts w files) = files"
proof -
  let ?st0 = "\<lparr>bworld = w, blog = lg, success_count = 0, error_count = 0\<rparr>"
  let ?tr = "attempts L opts w files"
  let ?out = "concat (map (\<lambda>(f, l, r). l @ [report opts f (r = Returned True)]) ?tr)"
  have nt: "Threw \<notin> set (results (attempts L opts (bworld ?st0) files))"
    using assms(3) by (auto dest!: set_update_subset_insert[THEN subsetD])
  from batch_loop_trace[OF nt, unfolded assms(3) simp_thms] count_all_but_one[OF assms(2)] assms(3)
  obtain st where b: "batch_loop L opts files ?st0 = (st, False)"
    and m: "map fst ?tr = files"
    and sc: "success_count st = int (length files - 1)"
    and ec: "error_count st = 1"
    and bl: "blog st = lg @ concat (map (\<lambda>(f, l, r). l @
              [if r = Returned True
               then (if verbose opts then Done
                     else Converted (filename f) (filename (get_output_path f (output_dir opts))))
               else Failed (filename f)]) ?tr)"
    by auto
  have o: "?out = concat (map (\<lambda>(f, l, r). l @
              [if r = Returned True
               then (if verbose opts then Done
                     else Converted (filename f) (filename (get_output_path f (output_dir opts))))
               else Failed (filename f)]) ?tr)"
    by (simp add: report_def)
  have bl': "blog st = lg @ ?out" using bl o by simp
  have sc': "success_count st = int (length files) - 1" using sc assms(2) by simp
  have rb: "run_batch L opts w lg files =
             (bworld st, lg @ ?out @ [Summary (int (length files) - 1) (length files)], Exit 1)"
    using b sc' ec bl' by (simp add: run_batch_def)
  have tr: "filter is_report ?out = map (\<lambda>(f, l, r). report opts f (r = Returned True)) ?tr \<and>
            filter is_decoding ?out = (if verbose opts then map Decoding (map fst ?tr) else [])"
  proof (rule trace_reports)
    fix f l r assume "(f, l, r) \<in> set ?tr"
    then show "filter is_report l = [] \<and>
               filter is_decoding l = (if verbose opts then [Decoding f] else [])"
      by (rule attempts_log_filters)
  qed
  have rp: "filter is_report ?out =
             map (\<lambda>j. if j = k then Failed (filename (files ! j))
                      else if verbose opts then Done
                      else Converted (filename (files ! j))
                             (filename (get_output_path (files ! j) (output_dir opts))))
               [0..<length files]"
    using tr trace_index[OF m assms(3), of opts] by simp
  have dc: "filter is_decoding ?out = (if verbose opts then map Decoding files else [])"
    using tr m by simp
  from b sc' ec bl' rb rp dc o m show ?thesis by blast
qed

theorem failure_isolation_witness:
  "results (attempts ex_codec (default_options\<lparr>input := ''photos/'', recursive := True\<rparr>) ex_world ex_tree) =
     [Returned True, Returned True, Returned False, Returned True] \<and>
   (\<exists>st out.
      batch_loop ex_codec (default_options\<lparr>input := ''photos/'', recursive := True\<rparr>) ex_tree
        \<lparr>bworld = ex_world, blog = [Found_files 4], success_count = 0, error_count = 0\<rparr> = (st, False) \<and>
      success_count st = 3 \<and> error_count st = 1 \<and> blog st = [Found_files 4] @ out \<and>
      filter is_report out = [Converted ''a.heic'' ''a.webp'', Converted ''b.HEIF'' ''b.webp'', Failed ''broken.heic'', Converted ''c.heic'' ''c.webp''] \<and>
      filter is_decoding out = []) \<and>
   snd (main ex_codec ex_world [''prog'', ''photos/'', ''-r'']) =
     ([Found_files 4, Converted ''a.heic'' ''a.webp'', Converted ''b.HEIF'' ''b.webp'', Failed_read, Failed ''broken.heic'', Converted ''c.heic'' ''c.webp'', Summary 3 4], Exit 1) \<and>
   read_file (fst (main ex_codec ex_world [''prog'', ''photos/'', ''-r''])) \<lparr>has_root = True, elems = [''home'', ''photos'', ''sub'', ''c.webp'']\<rparr> = Some [7, 4] \<and>
   results (attempts ex_codec (default_options\<lparr>verbose := True\<rparr>) ex_world ex_middle) =
     [Returned True, Returned False, Returned True] \<and>
   (\<exists>st out.
      batch_loop ex_codec (default_options\<lparr>verbose := True\<rparr>) ex_middle
        \<lparr>bworld = ex_world, blog = [], success_count = 0, error_count = 0\<rparr> = (st, False) \<and>
      success_count st = 2 \<and> error_count st = 1 \<and> blog st = out \<and>
      filter is_report out = [Done, Failed ''broken.heic'', Done] \<and>
      filter is_decoding out = map Decoding ex_middle \<and>
      read_file (bworld st) \<lparr>has_root = True, elems = [''home'', ''photos'', ''b.webp'']\<rparr> = Some [7, 2])"
proof -
  have l: "length ex_tree < 2147483648" "2 < length ex_tree" by (simp_all add: ex_tree_def)
  have n: "int (length ex_tree) - 1 = 3" by (simp add: ex_tree_def)
  have r: "results (attempts ex_codec (default_options\<lparr>input := ''photos/'', recursive := True\<rparr>) ex_world ex_tree) =
     [Returned True, Returned True, Returned False, Returned True]" by code_simp
  then have r': "results (attempts ex_codec (default_options\<lparr>input := ''photos/'', recursive := True\<rparr>) ex_world ex_tree) =
     (replicate (length ex_tree) (Returned True))[2 := Returned False]"
    by (simp add: ex_tree_def eval_nat_numeral)
  have m: "map (\<lambda>j. if j = 2 then Failed (filename (ex_tree ! j))
                      else if verbose (default_options\<lparr>input := ''photos/'', recursive := True\<rparr>) then Done
                      else Converted (filename (ex_tree ! j))
                             (filename (get_output_path (ex_tree ! j) (output_dir (default_options\<lparr>input := ''photos/'', recursive := True\<rparr>)))))
               [0..<length ex_tree] =
     [Converted ''a.heic'' ''a.webp'', Converted ''b.HEIF'' ''b.webp'', Failed ''broken.heic'', Converted ''c.heic'' ''c.webp'']" by code_simp
  have d: "(if verbose (default_options\<lparr>input := ''photos/'', recursive := True\<rparr>) then map Decoding ex_tree else []) = []"
    by (simp add: default_options_def)
  have s: "snd (main ex_codec ex_world [''prog'', ''photos/'', ''-r'']) =
     ([Found_files 4, Converted ''a.heic'' ''a.webp'', Converted ''b.HEIF'' ''b.webp'', Failed_read, Failed ''broken.heic'', Converted ''c.heic'' ''c.webp'', Summary 3 4], Exit 1)" by code_simp
  have c: "read_file (fst (main ex_codec ex_world [''prog'', ''photos/'', ''-r''])) \<lparr>has_root = True, elems = [''home'', ''photos'', ''sub'', ''c.webp'']\<rparr> = Some [7, 4]" by code_simp
  have e1: "(\<exists>st out.
      batch_loop ex_codec (default_options\<lparr>input := ''photos/'', recursive := True\<rparr>) ex_tree
        \<lparr>bworld = ex_world, blog = [Found_files 4], success_count = 0, error_count = 0\<rparr> = (st, False) \<and>
      success_count st = 3 \<and> error_count st = 1 \<and> blog st = [Found_files 4] @ out \<and>
      filter is_report out = [Converted ''a.heic'' ''a.webp'', Converted ''b.HEIF'' ''b.webp'', Failed ''broken.heic'', Converted ''c.heic'' ''c.webp''] \<and>
      filter is_decoding out = [])"
    using failure_isolation[OF l r', of "[Found_files 4]"] unfolding m d n by blast
  have l2: "length ex_middle < 2147483648" "1 < length ex_middle" by (simp_all add: ex_middle_def)
  have n2: "int (length ex_middle) - 1 = 2" by (simp add: ex_middle_def)
  have r2: "results (attempts ex_codec (default_options\<lparr>verbose := True\<rparr>) ex_world ex_middle) =
     [Returned True, Returned False, Returned True]" by code_simp
  then have r2': "results (attempts ex_codec (default_options\<lparr>verbose := True\<rparr>) ex_world ex_middle) =
     (replicate (length ex_middle) (Returned True))[1 := Returned False]"
    by (simp add: ex_middle_def eval_nat_numeral)
  have m2: "map (\<lambda>j. if j = 1 then Failed (filename (ex_middle ! j))
                      else if verbose (default_options\<lparr>verbose := True\<rparr>) then Done
                      else Converted (filename (ex_middle ! j))
                             (filename (get_output_path (ex_middle ! j) (output_dir (default_options\<lparr>verbose := True\<rparr>)))))
               [0..<length ex_middle] =
     [Done, Failed ''broken.heic'', Done]" by code_simp
  have d2: "(if verbose (default_options\<lparr>verbose := True\<rparr>) then map Decoding ex_middle else []) = map Decoding ex_middle"
    by (simp add: default_options_def)
  have w2: "read_file (fst (run_batch ex_codec (default_options\<lparr>verbose := True\<rparr>) ex_world [] ex_middle)) \<lparr>has_root = True, elems = [''home'', ''photos'', ''b.webp'']\<rparr> = Some [7, 2]"
    by code_simp
  from failure_isolation[OF l2 r2', of "[]"]
  obtain st out where b: "batch_loop ex_codec (default_options\<lparr>verbose := True\<rparr>) ex_middle
        \<lparr>bworld = ex_world, blog = [], success_count = 0, error_count = 0\<rparr> = (st, False)"
    and f: "success_count st = 2" "error_count st = 1" "blog st = out"
      "filter is_report out = [Done, Failed ''broken.heic'', Done]"
      "filter is_decoding out = map Decoding ex_middle"
    unfolding m2 d2 n2 by auto
  have "bworld st = fst (run_batch ex_codec (default_options\<lparr>verbose := True\<rparr>) ex_world [] ex_middle)"
    using b by (simp add: run_batch_def)
  then have "read_file (bworld st) \<lparr>has_root = True, elems = [''home'', ''photos'', ''b.webp'']\<rparr> = Some [7, 2]" using w2 by simp
  with b f have e2: "(\<exists>st out.
      batch_loop ex_codec (default_options\<lparr>verbose := True\<rparr>) ex_middle
        \<lparr>bworld = ex_world, blog = [], success_count = 0, error_count = 0\<rparr> = (st, False) \<and>
      success_count st = 2 \<and> error_count st = 1 \<and> blog st = out \<and>
      filter is_report out = [Done, Failed ''broken.heic'', Done] \<and>
      filter is_decoding out = map Decoding ex_middle \<and>
      read_file (bworld st) \<lparr>has_root = True, elems = [''home'', ''photos'', ''b.webp'']\<rparr> = Some [7, 2])" by blast
  from r e1 s c r2 e2 show ?thesis by (simp only: simp_thms)
qed

subsection \<open>A root that is a single file\<close>

lemma ex_jpg_main:
  "snd (main ex_codec ex_world [''prog'', ''photo.jpg'']) =
     ([Converted ''photo.jpg'' ''photo.webp'', Summary 1 1], Exit 0)"
  by code_simp

lemma ex_jpg_written:
  "read_file (fst (main ex_codec ex_world [''prog'', ''photo.jpg'']))
     (path_of_string ''/home/photo.webp'') = Some [7, 5]"
  by code_simp

text \<open>
  Claim C3 says that a root which is a single file outside the source format yields an
  empty batch, so that nothing is converted. The code does not classify such a root:
  \<open>photo.jpg\<close> of the example exists, is no directory and fails \<open>is_heic_file\<close>, yet it
  is the batch, it is converted, and \<open>photo.webp\<close> is written.
\<close>

theorem single_file_not_classified:
  "exists ex_world ex_jpg \<and> \<not> is_directory ex_world ex_jpg \<and> \<not> is_heic_file ex_world ex_jpg \<and>
   discover ex_world ex_jpg False = Some [ex_jpg] \<and>
   snd (main ex_codec ex_world [''prog'', ''photo.jpg'']) =
     ([Converted ''photo.jpg'' ''photo.webp'', Summary 1 1], Exit 0) \<and>
   read_file (fst (main ex_codec ex_world [''prog'', ''photo.jpg'']))
     (path_of_string ''/home/photo.webp'') = Some [7, 5]"
proof -
  have "exists ex_world ex_jpg" by code_simp
  moreover have "\<not> is_directory ex_world ex_jpg" by code_simp
  moreover have "\<not> is_heic_file ex_world ex_jpg" by code_simp
  moreover have "discover ex_world ex_jpg False = Some [ex_jpg]" by code_simp
  ultimately show ?thesis using ex_jpg_main ex_jpg_written by simp
qed

lemma run_batch_single:
  "run_batch L opts w lg [p] =
     (case convert_heic_to_webp L w p (get_output_path p (output_dir opts)) opts of
        (w', l, Threw) \<Rightarrow> (w', lg @ l, Terminate)
      | (w', l, Returned ok) \<Rightarrow>
          if ok then
            (w', lg @ l @ [if verbose opts then Done
                           else Converted (filename p) (filename (get_output_path p (output_dir opts))),
                           Summary 1 1], Exit 0)
          else (w', lg @ l @ [Failed (filename p), Summary 0 1], Exit 1))"
proof -
  obtain w' l r where c: "convert_heic_to_webp L w p (get_output_path p (output_dir opts)) opts = (w', l, r)"
    by (metis prod_cases3)
  show ?thesis
  proof (cases r)
    case Threw
    then show ?thesis using c by (simp add: run_batch_def)
  next
    case (Returned ok)
    then show ?thesis using c by (cases ok) (simp_all add: run_batch_def)
  qed
qed

lemma main_mkdir_fails:
  assumes "2 \<le> length argv" and "parse_args argv = (lg, Inr opts)" and "input opts \<noteq> []"
    and "exists w (absolute w (path_of_string (input opts)))"
    and "(if output_dir opts \<noteq> [] then create_directories w (path_of_string (output_dir opts))
          else (w, True)) = (w1, False)"
  shows "main L w argv = (w1, lg, Terminate)"
  using assms by (simp add: main_def Let_def)

text \<open>
  Claim C3, as the code has it. Let the parser return with an input path that exists.
  When the output directory, if one is given, could be created and the input is then
  not a directory, the batch is that one path, whether or not it passes the
  classifier: \<open>main\<close> runs the loop on it, the conversion is attempted, and its outcome
  alone decides the file system that is left and the exit code, 0 for a success and 1
  for a failure. When the output directory cannot be created, \<open>main\<close> ends by the
  exception of \<open>create_directories\<close> before anything is attempted.
\<close>

theorem single_file_root:
  assumes "2 \<le> length argv" and "parse_args argv = (lg, Inr opts)" and "input opts \<noteq> []"
    and "p = absolute w (path_of_string (input opts))" and "exists w p"
    and "(if output_dir opts \<noteq> [] then create_directories w (path_of_string (output_dir opts))
          else (w, True)) = (w1, ok)"
  shows "(ok \<and> \<not> is_directory w1 p \<longrightarrow>
            discover w1 p (recursive opts) = Some [p] \<and>
            main L w argv = run_batch L opts w1 lg [p] \<and>
            (\<exists>w2 l succeeded. convert_heic_to_webp L w1 p (get_output_path p (output_dir opts)) opts =
                 (w2, l, Returned succeeded) \<and>
               fst (main L w argv) = w2 \<and>
               exit_status (main L w argv) = Exit (if succeeded then 0 else 1))) \<and>
         (\<not> ok \<longrightarrow> main L w argv = (w1, lg, Terminate))"
proof (intro conjI impI)
  assume a: "ok \<and> \<not> is_directory w1 p"
  then show d: "discover w1 p (recursive opts) = Some [p]" by (simp add: discover_def)
  show m: "main L w argv = run_batch L opts w1 lg [p]"
    using assms a by (simp add: main_def Let_def)
  obtain w2 l r where c: "convert_heic_to_webp L w1 p (get_output_path p (output_dir opts)) opts = (w2, l, r)"
    by (metis prod_cases3)
  then obtain b where r: "r = Returned b" using convert_never_throws[of L w1 p _ opts w2 l] by (cases r) auto
  have "fst (main L w argv) = w2 \<and> exit_status (main L w argv) = Exit (if b then 0 else 1)"
    unfolding m run_batch_single c r by (simp add: exit_status_def)
  with c r show "\<exists>w2 l succeeded. convert_heic_to_webp L w1 p (get_output_path p (output_dir opts)) opts =
                 (w2, l, Returned succeeded) \<and>
               fst (main L w argv) = w2 \<and>
               exit_status (main L w argv) = Exit (if succeeded then 0 else 1)" by blast
next
  assume "\<not> ok"
  then show "main L w argv = (w1, lg, Terminate)"
    using main_mkdir_fails[of argv lg opts w w1 L] assms by simp
qed

theorem single_file_root_witness:
  "discover ex_world ex_jpg False = Some [ex_jpg] \<and>
   main ex_codec ex_world [''prog'', ''photo.jpg''] =
     run_batch ex_codec (default_options\<lparr>input := ''photo.jpg''\<rparr>) ex_world [] [ex_jpg] \<and>
   exit_status (main ex_codec ex_world [''prog'', ''photo.jpg'']) = Exit 0 \<and>
   snd (main ex_codec ex_world [''prog'', ''photo.jpg'', ''-o'', ''photos/a.heic'']) = ([], Terminate)"
proof -
  let ?opts = "default_options\<lparr>input := ''photo.jpg''\<rparr>"
  have a1: "2 \<le> length [''prog'', ''photo.jpg'']" by simp
  have a2: "parse_args [''prog'', ''photo.jpg''] = ([], Inr ?opts)"
    unfolding parse_args_def list.sel by (rule parse_single_input) (simp add: arg_kind_def)
  have a3: "input ?opts \<noteq> []" by simp
  have a4: "ex_jpg = absolute ex_world (path_of_string (input ?opts))" by (simp add: ex_jpg_def)
  have a5: "exists ex_world ex_jpg" by code_simp
  have a6: "(if output_dir ?opts \<noteq> [] then create_directories ex_world (path_of_string (output_dir ?opts))
          else (ex_world, True)) = (ex_world, True)" by (simp add: default_options_def)
  have a7: "\<not> is_directory ex_world ex_jpg" by code_simp
  have r: "recursive ?opts = False" by (simp add: default_options_def)
  have e: "exit_status (main ex_codec ex_world [''prog'', ''photo.jpg'']) = Exit 0"
    using ex_jpg_main by (simp add: exit_status_def)
  let ?o2 = "default_options\<lparr>input := ''photo.jpg'', output_dir := ''photos/a.heic''\<rparr>"
  let ?cd = "create_directories ex_world (path_of_string ''photos/a.heic'')"
  have b1: "2 \<le> length [''prog'', ''photo.jpg'', ''-o'', ''photos/a.heic'']" by simp
  have b2: "parse_args [''prog'', ''photo.jpg'', ''-o'', ''photos/a.heic''] = ([], Inr ?o2)"
    by (simp add: parse_args_def parse_loop_kind arg_kind_def)
  have b3: "input ?o2 \<noteq> []" by simp
  have b4: "ex_jpg = absolute ex_world (path_of_string (input ?o2))" by (simp add: ex_jpg_def)
  have nok: "snd ?cd = False" by code_simp
  have b6: "(if output_dir ?o2 \<noteq> [] then create_directories ex_world (path_of_string (output_dir ?o2))
          else (ex_world, True)) = (fst ?cd, False)"
    using nok by (simp add: prod_eq_iff)
  from single_file_root[OF a1 a2 a3 a4 a5 a6, of ex_codec] a7 r e
    single_file_root[OF b1 b2 b3 b4 a5 b6, of ex_codec]
  show ?thesis by simp
qed

subsection \<open>The exit code\<close>











end
